theory Spec2Isabelle
  imports Complex_Main "HOL-Library.Multiset" "HOL-Library.Product_Lexorder"
    "HOL-Library.Char_ord" "HOL-Library.List_Lexorder"
begin

section \<open>Data model\<close>

text \<open>
  A Python \<^verbatim>\<open>str\<close> is a sequence of Unicode code points, and \<^verbatim>\<open>len\<close>, indexing and the
  regular expressions of \<^verbatim>\<open>re\<close> all work on code points. Transcript text is therefore a list
  of code points (natural numbers), not a list of bytes.

  The timestamps of words and sentences are finite Python floats, each taken as the real
  number it denotes. The result of a float operation is not the exact result on these reals:
  it is rounded, and it can be an infinity or NaN. So the arithmetic of the interpreter is a
  parameter of the model (\<open>float_ops\<close> below), and nothing is assumed of it.
\<close>

type_synonym pystr = "nat list"

text \<open>A word is the dict \<^verbatim>\<open>{"text": str, "start": float, "end": float}\<close> built by
  \<^verbatim>\<open>transcribe\<close>; a sentence is the dict \<^verbatim>\<open>dict(text=..., start_time=..., end_time=...)\<close> built by
  \<^verbatim>\<open>words_to_sentences\<close>.\<close>

record word =
  w_text :: pystr
  w_start :: real
  w_end :: real

record sentence =
  s_text :: pystr
  start_time :: real
  end_time :: real

datatype py_error = IndexError | ExportError | OverflowError | ValueError

text \<open>The value of a float expression: a finite float, an infinity, or NaN.\<close>

datatype pyfloat = Finite real | PosInf | NegInf | NaN

text \<open>The float arithmetic of the interpreter on finite operands: \<open>fsub a b\<close> is \<^verbatim>\<open>a - b\<close>,
  \<open>fadd a b\<close> is \<^verbatim>\<open>a + b\<close>, \<open>fmul a b\<close> is \<^verbatim>\<open>a * b\<close>, \<open>fdiv a b\<close> is \<^verbatim>\<open>a / b\<close> for a divisor
  that is not zero, and \<open>fround3 a\<close> is \<^verbatim>\<open>round(a, 3)\<close>, which is finite.\<close>

record float_ops =
  fsub :: "real \<Rightarrow> real \<Rightarrow> pyfloat"
  fadd :: "real \<Rightarrow> real \<Rightarrow> pyfloat"
  fmul :: "real \<Rightarrow> real \<Rightarrow> pyfloat"
  fdiv :: "real \<Rightarrow> real \<Rightarrow> pyfloat"
  fround3 :: "real \<Rightarrow> real"

section \<open>Python library operations used by the pipeline\<close>

text \<open>\<^verbatim>\<open>xs[i]\<close> for a list: a negative index counts from the end, an index out of range
  raises \<^verbatim>\<open>IndexError\<close>.\<close>

definition py_item :: "'a list \<Rightarrow> int \<Rightarrow> py_error + 'a" where
  "py_item xs i =
     (let k = (if i < 0 then i + int (length xs) else i)
      in if k < 0 \<or> int (length xs) \<le> k then Inl IndexError else Inr (xs ! nat k))"

text \<open>\<^verbatim>\<open>x >= t\<close> and \<^verbatim>\<open>x <= t\<close> for a float value \<open>x\<close> and a finite float \<open>t\<close>: every
  comparison with NaN is false.\<close>

definition py_ge :: "pyfloat \<Rightarrow> real \<Rightarrow> bool" where
  "py_ge x t = (case x of Finite r \<Rightarrow> t \<le> r | PosInf \<Rightarrow> True | NegInf \<Rightarrow> False | NaN \<Rightarrow> False)"

definition py_le :: "pyfloat \<Rightarrow> real \<Rightarrow> bool" where
  "py_le x t = (case x of Finite r \<Rightarrow> r \<le> t | PosInf \<Rightarrow> False | NegInf \<Rightarrow> True | NaN \<Rightarrow> False)"

text \<open>\<^verbatim>\<open>int(x)\<close> on a float truncates toward zero; it raises \<^verbatim>\<open>OverflowError\<close> on an infinity
  and \<^verbatim>\<open>ValueError\<close> on NaN.\<close>

definition py_trunc :: "real \<Rightarrow> int" where
  "py_trunc r = (if 0 \<le> r then \<lfloor>r\<rfloor> else \<lceil>r\<rceil>)"

definition py_int :: "pyfloat \<Rightarrow> py_error + int" where
  "py_int x =
     (case x of
        Finite r \<Rightarrow> Inr (py_trunc r)
      | PosInf \<Rightarrow> Inl OverflowError
      | NegInf \<Rightarrow> Inl OverflowError
      | NaN \<Rightarrow> Inl ValueError)"

text \<open>The code points for which \<^verbatim>\<open>str.isspace\<close> holds. Both \<^verbatim>\<open>\s\<close> in a \<^verbatim>\<open>str\<close> pattern and
  \<^verbatim>\<open>str.strip()\<close> use this predicate.\<close>

definition is_space :: "nat \<Rightarrow> bool" where
  "is_space c =
     (c \<in> {9, 10, 11, 12, 13, 28, 29, 30, 31, 32, 133, 160, 5760,
            8192, 8193, 8194, 8195, 8196, 8197, 8198, 8199, 8200, 8201, 8202,
            8232, 8233, 8239, 8287, 12288})"

text \<open>\<^verbatim>\<open>s.strip()\<close>: drop the whitespace at both ends.\<close>

definition py_strip :: "pystr \<Rightarrow> pystr" where
  "py_strip s = rev (dropWhile is_space (rev (dropWhile is_space s)))"

text \<open>\<^verbatim>\<open>re.sub(r"\s+", " ", s)\<close>. The scan goes left to right; at a whitespace character the
  pattern matches the whole run (the quantifier is greedy), which is replaced by one space
  (code point 32), and the scan goes on after the run; any other character is copied.\<close>

function re_sub_spaces :: "pystr \<Rightarrow> pystr" where
  "re_sub_spaces [] = []"
| "re_sub_spaces (c # cs) =
     (if is_space c then 32 # re_sub_spaces (dropWhile is_space cs)
      else c # re_sub_spaces cs)"
  by pat_completeness auto
termination
  by (relation "measure length") (auto simp: length_dropWhile_le less_Suc_eq_le)

text \<open>\<^verbatim>\<open>re.sub(r"\s+([cls])", r"\1", s)\<close> for a character class \<open>cls\<close>. At a whitespace
  character the greedy \<^verbatim>\<open>\s+\<close> takes the rest of the run; the match succeeds when the next
  character is in the class (backtracking to a shorter run cannot help: the character after a
  shorter run is whitespace). A match is replaced by the class character alone and the scan
  goes on after it; where there is no match the character is copied and the scan moves one
  position.\<close>

function re_sub_space_before :: "nat set \<Rightarrow> pystr \<Rightarrow> pystr" where
  "re_sub_space_before cls [] = []"
| "re_sub_space_before cls (c # cs) =
     (if is_space c then
        (case dropWhile is_space cs of
           [] \<Rightarrow> c # re_sub_space_before cls cs
         | p # rest \<Rightarrow>
             if p \<in> cls then p # re_sub_space_before cls rest
             else c # re_sub_space_before cls cs)
      else c # re_sub_space_before cls cs)"
  by pat_completeness auto
termination
proof (relation "measure (\<lambda>(cls, s). length s)", goal_cases)
  case 1
  show ?case by simp
next
  case (2 cls c cs)
  show ?case by simp
next
  case (3 cls c cs p rest)
  have "length (dropWhile is_space cs) \<le> length cs"
    by (rule length_dropWhile_le)
  with 3 show ?case by simp
next
  case (4 cls c cs p rest)
  show ?case by simp
next
  case (5 cls c cs)
  show ?case by simp
qed

section \<open>The segmentation core of \<^verbatim>\<open>scripts/pipeline.py\<close>\<close>

text \<open>\<^verbatim>\<open>SENTENCE_END_CHARS\<close>, the set of the seven characters of the literal at line 12: full
  stop (46), exclamation mark (33), question mark (63), and the code points U+3002 (12290),
  U+FF01 (65281), U+FF1F (65311) and U+2026 (8230).\<close>

definition SENTENCE_END_CHARS :: "nat set" where
  "SENTENCE_END_CHARS = {46, 33, 63, 12290, 65281, 65311, 8230}"

text \<open>\<^verbatim>\<open>should_close_sentence\<close>: \<open>next_word\<close> is \<open>None\<close> when the source passes \<^verbatim>\<open>None\<close>.
  \<^verbatim>\<open>accum_text[-1]\<close> is only read when \<^verbatim>\<open>accum_text\<close> is non-empty. The gap of line 71 is a
  float subtraction, and line 72 compares its value with the threshold.\<close>

definition should_close_sentence ::
  "float_ops \<Rightarrow> pystr \<Rightarrow> word \<Rightarrow> word option \<Rightarrow> real \<Rightarrow> bool" where
  "should_close_sentence fp accum_text current_word next_word gap_threshold =
     (if accum_text \<noteq> [] \<and> last accum_text \<in> SENTENCE_END_CHARS then True
      else case next_word of
             None \<Rightarrow> False
           | Some nw \<Rightarrow>
               (let gap = fsub fp (w_start nw) (w_end current_word)
                in if py_ge gap gap_threshold then True else False))"

text \<open>\<^verbatim>\<open>normalize_spacing\<close>: the class of the second substitution is U+3002, U+FF01, U+FF1F,
  U+2026.\<close>

definition normalize_spacing :: "pystr \<Rightarrow> pystr" where
  "normalize_spacing s =
     (let s1 = py_strip (re_sub_spaces s)
      in re_sub_space_before {12290, 65281, 65311, 8230} s1)"

text \<open>The block that closes an accumulator (lines 101 to 105, and again 110 to 114):
  \<^verbatim>\<open>acc[0]\<close> and \<^verbatim>\<open>acc[-1]\<close> raise on an empty list; the sentence is appended only when its
  stripped text is non-empty.\<close>

definition emit_sentence :: "word list \<Rightarrow> pystr \<Rightarrow> sentence list \<Rightarrow> py_error + sentence list" where
  "emit_sentence acc_ws accum_text sents =
     (case py_item acc_ws 0 of
        Inl e \<Rightarrow> Inl e
      | Inr first_w \<Rightarrow>
          (case py_item acc_ws (- 1) of
             Inl e \<Rightarrow> Inl e
           | Inr last_w \<Rightarrow>
               (let txt = normalize_spacing accum_text
                in if py_strip txt \<noteq> []
                   then Inr (sents @ [\<lparr>s_text = txt, start_time = w_start first_w,
                                       end_time = w_end last_w\<rparr>])
                   else Inr sents)))"

text \<open>The state of the loop of \<^verbatim>\<open>words_to_sentences\<close>: \<open>accum\<close> is the list \<^verbatim>\<open>acc\<close>,
  \<open>sentences\<close> the list \<^verbatim>\<open>sentences\<close>. The field \<open>steps\<close> is a history variable that the
  program does not have: one entry per iteration, holding the accumulator after the append of
  line 87 and the value of \<^verbatim>\<open>need_close\<close> at line 100. Nothing reads it; it makes the
  closing decisions and the constituent words of a sentence observable.\<close>

record seg_state =
  accum :: "word list"
  sentences :: "sentence list"
  steps :: "(word list \<times> bool) list"

text \<open>The \<^verbatim>\<open>for i, w in enumerate(words)\<close> loop, on the words not yet visited. The next word
  \<^verbatim>\<open>words[i+1] if i+1 < len(words) else None\<close> is the head of the remaining list.\<close>

fun seg_loop ::
  "float_ops \<Rightarrow> real \<Rightarrow> int \<Rightarrow> word list \<Rightarrow> seg_state \<Rightarrow> py_error + seg_state" where
  "seg_loop fp gap_threshold max_chars [] st = Inr st"
| "seg_loop fp gap_threshold max_chars (w # rest) st =
     (let acc1 = accum st @ [w];
          next_w = (case rest of [] \<Rightarrow> None | nw # _ \<Rightarrow> Some nw);
          accum_text = concat (map w_text acc1);
          need_close =
            (if should_close_sentence fp accum_text w next_w gap_threshold then True
             else if max_chars \<le> int (length accum_text) then True
             else False)
      in if need_close then
           (case emit_sentence acc1 accum_text (sentences st) of
              Inl e \<Rightarrow> Inl e
            | Inr sents \<Rightarrow>
                seg_loop fp gap_threshold max_chars rest
                  \<lparr>accum = [], sentences = sents, steps = steps st @ [(acc1, True)]\<rparr>)
         else
           seg_loop fp gap_threshold max_chars rest
             \<lparr>accum = acc1, sentences = sentences st, steps = steps st @ [(acc1, False)]\<rparr>)"

text \<open>\<^verbatim>\<open>words_to_sentences\<close> with its final state: the early return on an empty list, the
  loop, and the flush of a non-empty accumulator.\<close>

definition segment_run ::
  "float_ops \<Rightarrow> word list \<Rightarrow> real \<Rightarrow> int \<Rightarrow> py_error + seg_state" where
  "segment_run fp words gap_threshold max_chars =
     (if words = [] then Inr \<lparr>accum = [], sentences = [], steps = []\<rparr>
      else
        case seg_loop fp gap_threshold max_chars words
               \<lparr>accum = [], sentences = [], steps = []\<rparr> of
          Inl e \<Rightarrow> Inl e
        | Inr st \<Rightarrow>
            if accum st \<noteq> [] then
              (case emit_sentence (accum st) (concat (map w_text (accum st))) (sentences st) of
                 Inl e \<Rightarrow> Inl e
               | Inr sents \<Rightarrow> Inr (st\<lparr>sentences := sents\<rparr>))
            else Inr st)"

definition words_to_sentences ::
  "float_ops \<Rightarrow> word list \<Rightarrow> real \<Rightarrow> int \<Rightarrow> py_error + sentence list" where
  "words_to_sentences fp words gap_threshold max_chars =
     (case segment_run fp words gap_threshold max_chars of
        Inl e \<Rightarrow> Inl e
      | Inr st \<Rightarrow> Inr (sentences st))"


section \<open>\<^verbatim>\<open>transcribe\<close> and the call of the segmenter in \<^verbatim>\<open>main\<close>\<close>

text \<open>The recognizer is outside the repository. Its result, the iterable \<^verbatim>\<open>segments\<close> of line
  23, is a parameter: a list of segments, each with optional bounds, a text and an optional
  list of words, each word with a text and optional bounds. The object \<^verbatim>\<open>info\<close> is not
  modelled.\<close>

record raw_word =
  rw_word :: pystr
  rw_start :: "real option"
  rw_end :: "real option"

record segment =
  seg_start :: "real option"
  seg_end :: "real option"
  seg_text :: pystr
  seg_words :: "raw_word list option"

record seg_obj =
  so_start :: "real option"
  so_end :: "real option"
  so_text :: pystr

text \<open>Lines 42 to 46: the words of a segment, without those that lack a bound.\<close>

fun timed_words :: "raw_word list \<Rightarrow> word list" where
  "timed_words [] = []"
| "timed_words (w # ws) =
     (case rw_start w of
        None \<Rightarrow> timed_words ws
      | Some s \<Rightarrow>
          (case rw_end w of
             None \<Rightarrow> timed_words ws
           | Some e \<Rightarrow> \<lparr>w_text = rw_word w, w_start = s, w_end = e\<rparr> # timed_words ws))"

text \<open>Lines 57 to 59: one word per character, each \<open>per_char\<close> long. The sum \<^verbatim>\<open>t + per_char\<close> is a
  float addition. A word record holds finite timestamps only: where the sum is an infinity or
  NaN the result is \<open>None\<close>, a run that this model does not cover.\<close>

fun spread_chars :: "float_ops \<Rightarrow> real \<Rightarrow> real \<Rightarrow> pystr \<Rightarrow> word list option" where
  "spread_chars fp t per_char [] = Some []"
| "spread_chars fp t per_char (ch # chars) =
     (case fadd fp t per_char of
        Finite t1 \<Rightarrow>
          (case spread_chars fp t1 per_char chars of
             None \<Rightarrow> None
           | Some ws \<Rightarrow> Some (\<lparr>w_text = [ch], w_start = t, w_end = t1\<rparr> # ws))
      | PosInf \<Rightarrow> None
      | NegInf \<Rightarrow> None
      | NaN \<Rightarrow> None)"

text \<open>Lines 41 to 59, the words that one segment contributes. \<^verbatim>\<open>if seg.words\<close> holds for a
  non-empty list; otherwise lines 48 to 59 apply. There the duration is a float subtraction
  (0.0 when a bound is missing) and \<open>per_char\<close> a float division by the number of characters;
  a duration that is an infinity or NaN, like a \<open>per_char\<close> that is, gives \<open>None\<close> as above.
  The number of characters becomes a float without rounding. The branch for a missing start
  after the test of line 53 cannot be reached.\<close>

definition segment_fallback :: "float_ops \<Rightarrow> segment \<Rightarrow> word list option" where
  "segment_fallback fp seg =
     (let chars = py_strip (seg_text seg)
      in if chars = [] then Some []
         else
           (let dur = (case seg_start seg of
                         None \<Rightarrow> Finite 0
                       | Some s \<Rightarrow>
                           (case seg_end seg of
                              None \<Rightarrow> Finite 0
                            | Some e \<Rightarrow> fsub fp e s))
            in if py_le dur 0 \<or> seg_start seg = None then Some []
               else
                 (case seg_start seg of
                    None \<Rightarrow> Some []
                  | Some s \<Rightarrow>
                      (case dur of
                         Finite d \<Rightarrow>
                           (case fdiv fp d (real (max (length chars) 1)) of
                              Finite per_char \<Rightarrow> spread_chars fp s per_char chars
                            | PosInf \<Rightarrow> None
                            | NegInf \<Rightarrow> None
                            | NaN \<Rightarrow> None)
                       | PosInf \<Rightarrow> None
                       | NegInf \<Rightarrow> None
                       | NaN \<Rightarrow> None))))"

definition segment_words :: "float_ops \<Rightarrow> segment \<Rightarrow> word list option" where
  "segment_words fp seg =
     (case seg_words seg of
        None \<Rightarrow> segment_fallback fp seg
      | Some [] \<Rightarrow> segment_fallback fp seg
      | Some (w # ws) \<Rightarrow> Some (timed_words (w # ws)))"

text \<open>The loop over the segments, lines 34 to 59: the list \<^verbatim>\<open>words\<close> before the sort.\<close>

fun collect_words :: "float_ops \<Rightarrow> segment list \<Rightarrow> word list option" where
  "collect_words fp [] = Some []"
| "collect_words fp (seg # rest) =
     (case segment_words fp seg of
        None \<Rightarrow> None
      | Some ws \<Rightarrow>
          (case collect_words fp rest of
             None \<Rightarrow> None
           | Some others \<Rightarrow> Some (ws @ others)))"

text \<open>Line 62, \<^verbatim>\<open>words.sort(key=lambda w: (w["start"], w["end"]))\<close>: a stable sort on the pair
  (start, end), compared lexicographically. It is the last step of \<^verbatim>\<open>transcribe\<close>;
  \<^verbatim>\<open>words_to_sentences\<close> itself contains no sort.\<close>

definition sort_words :: "word list \<Rightarrow> word list" where
  "sort_words words = sort_key (\<lambda>w. (w_start w, w_end w)) words"

text \<open>\<^verbatim>\<open>transcribe\<close>: the sorted words and the segment objects of lines 35 to 40.\<close>

definition transcribe :: "float_ops \<Rightarrow> segment list \<Rightarrow> (word list \<times> seg_obj list) option" where
  "transcribe fp segments =
     (case collect_words fp segments of
        None \<Rightarrow> None
      | Some words \<Rightarrow>
          Some (sort_words words,
                map (\<lambda>seg. \<lparr>so_start = seg_start seg, so_end = seg_end seg,
                             so_text = py_strip (seg_text seg)\<rparr>) segments))"

text \<open>Lines 186 and 191 of \<^verbatim>\<open>main\<close>: the segmenter is called on the words that
  \<^verbatim>\<open>transcribe\<close> returns, with \<^verbatim>\<open>max_chars=80\<close>.\<close>

definition main_sentences ::
  "float_ops \<Rightarrow> segment list \<Rightarrow> real \<Rightarrow> (py_error + sentence list) option" where
  "main_sentences fp segments gap_threshold =
     (case transcribe fp segments of
        None \<Rightarrow> None
      | Some (words, segs) \<Rightarrow> Some (words_to_sentences fp words gap_threshold 80))"

section \<open>The clip exporter of \<^verbatim>\<open>scripts/pipeline.py\<close>\<close>

text \<open>The format \<^verbatim>\<open>{i:03}\<close> of an ordinal: its decimal digits, padded on the left with zeros
  to a width of at least three.\<close>

definition digit_char :: "nat \<Rightarrow> char" where
  "digit_char d = ''0123456789'' ! d"

fun dec_digits :: "nat \<Rightarrow> string" where
  "dec_digits n =
     (if n < 10 then [digit_char n] else dec_digits (n div 10) @ [digit_char (n mod 10)])"

declare dec_digits.simps [simp del]

definition fmt_03 :: "nat \<Rightarrow> string" where
  "fmt_03 i = (let d = dec_digits i in replicate (3 - length d) (CHR ''0'') @ d)"

text \<open>Line 134, \<^verbatim>\<open>filename = f"segment_{i:03}.mp3"\<close>.\<close>

definition segment_filename :: "nat \<Rightarrow> string" where
  "segment_filename i = ''segment_'' @ fmt_03 i @ ''.mp3''"

text \<open>Lines 131 and 132, the millisecond bounds of a clip. Each product is a float
  multiplication, and \<^verbatim>\<open>int\<close> raises when the product is not finite.\<close>

definition clip_bounds :: "float_ops \<Rightarrow> sentence \<Rightarrow> py_error + int \<times> int" where
  "clip_bounds fp sent =
     (case py_int (fmul fp (start_time sent) 1000) of
        Inl e \<Rightarrow> Inl e
      | Inr s \<Rightarrow>
          (let start_ms = max s 0
           in case py_int (fmul fp (end_time sent) 1000) of
                Inl e \<Rightarrow> Inl e
              | Inr t \<Rightarrow>
                  (let end_ms = max t (start_ms + 1)
                   in Inr (start_ms, end_ms))))"

text \<open>An entry of the manifest, the dict appended at lines 137 to 142. The text is arbitrary
  Unicode; the path is built from ASCII literals and digits and is a \<open>string\<close>.\<close>

record clip_record =
  c_text :: pystr
  c_start_time :: real
  c_end_time :: real
  path :: string

text \<open>What the run leaves on disk, in the order of writing: a clip (its path under the output
  directory and its bounds), the manifest \<^verbatim>\<open>segments.json\<close>, the subtitle file.\<close>

datatype io_event =
  ClipWritten string int int
| JsonWritten "clip_record list"
| SrtWritten "clip_record list"

text \<open>The audio library is outside the repository. \<open>codec p a b\<close> says whether slicing the
  audio over \<open>[a, b)\<close> and exporting it to \<open>p\<close> raises (\<open>Some e\<close>) or succeeds (\<open>None\<close>).\<close>

type_synonym codec = "string \<Rightarrow> int \<Rightarrow> int \<Rightarrow> py_error option"

text \<open>The loop of \<^verbatim>\<open>export_clips\<close>, \<^verbatim>\<open>for i, sent in enumerate(sentences, start=1)\<close>: an
  exception of \<^verbatim>\<open>int\<close>, of the slice or of the export leaves the loop at once, with the clips
  written so far on disk. The creation of the directory \<^verbatim>\<open>segments\<close> (lines 126 and 127) is not
  modelled.\<close>

fun export_loop ::
  "float_ops \<Rightarrow> codec \<Rightarrow> nat \<Rightarrow> sentence list \<Rightarrow> clip_record list \<Rightarrow> io_event list
     \<Rightarrow> (py_error + clip_record list) \<times> io_event list" where
  "export_loop fp cd i [] results fs = (Inr results, fs)"
| "export_loop fp cd i (sent # rest) results fs =
     (case clip_bounds fp sent of
        Inl e \<Rightarrow> (Inl e, fs)
      | Inr (start_ms, end_ms) \<Rightarrow>
          (let filename = segment_filename i;
               abs_path = ''segments/'' @ filename
           in case cd abs_path start_ms end_ms of
                Some e \<Rightarrow> (Inl e, fs)
              | None \<Rightarrow>
                  export_loop fp cd (i + 1) rest
                    (results @ [\<lparr>c_text = s_text sent,
                                  c_start_time = fround3 fp (start_time sent),
                                  c_end_time = fround3 fp (end_time sent),
                                  path = ''segments/'' @ filename\<rparr>])
                    (fs @ [ClipWritten abs_path start_ms end_ms])))"

definition export_clips ::
  "float_ops \<Rightarrow> codec \<Rightarrow> sentence list \<Rightarrow> io_event list
     \<Rightarrow> (py_error + clip_record list) \<times> io_event list" where
  "export_clips fp cd sents fs = export_loop fp cd 1 sents [] fs"

text \<open>Lines 197 to 202 of \<^verbatim>\<open>main\<close>: export the clips, then write the manifest, then the
  subtitles when asked. There is no exception handler: an exception of \<^verbatim>\<open>export_clips\<close> ends
  the run before \<^verbatim>\<open>write_json\<close> is called. The contents of the subtitle file are not
  modelled.\<close>

definition main_export ::
  "float_ops \<Rightarrow> codec \<Rightarrow> sentence list \<Rightarrow> bool \<Rightarrow> io_event list
     \<Rightarrow> (py_error + unit) \<times> io_event list" where
  "main_export fp cd sents export_srt fs =
     (case export_clips fp cd sents fs of
        (Inl e, fs1) \<Rightarrow> (Inl e, fs1)
      | (Inr items, fs1) \<Rightarrow>
          (let fs2 = fs1 @ [JsonWritten items];
               fs3 = (if export_srt then fs2 @ [SrtWritten items] else fs2)
           in (Inr (), fs3)))"

section \<open>The segmentation core of \<^verbatim>\<open>scripts/pipeline_no_ffmpeg.py\<close>\<close>

text \<open>The second script carries its own copy of the constant and of the three functions
  (lines 13 and 63 to 121). They are embedded again from that file, with the suffix \<open>_nf\<close>,
  and without the history variable.\<close>

definition SENTENCE_END_CHARS_nf :: "nat set" where
  "SENTENCE_END_CHARS_nf = {46, 33, 63, 12290, 65281, 65311, 8230}"

definition should_close_sentence_nf ::
  "float_ops \<Rightarrow> pystr \<Rightarrow> word \<Rightarrow> word option \<Rightarrow> real \<Rightarrow> bool" where
  "should_close_sentence_nf fp accum_text current_word next_word gap_threshold =
     (if accum_text \<noteq> [] \<and> last accum_text \<in> SENTENCE_END_CHARS_nf then True
      else case next_word of
             None \<Rightarrow> False
           | Some nw \<Rightarrow>
               (let gap = fsub fp (w_start nw) (w_end current_word)
                in if py_ge gap gap_threshold then True else False))"

definition normalize_spacing_nf :: "pystr \<Rightarrow> pystr" where
  "normalize_spacing_nf s =
     (let s1 = py_strip (re_sub_spaces s)
      in re_sub_space_before {12290, 65281, 65311, 8230} s1)"

definition emit_sentence_nf :: "word list \<Rightarrow> pystr \<Rightarrow> sentence list \<Rightarrow> py_error + sentence list" where
  "emit_sentence_nf acc_ws accum_text sents =
     (case py_item acc_ws 0 of
        Inl e \<Rightarrow> Inl e
      | Inr first_w \<Rightarrow>
          (case py_item acc_ws (- 1) of
             Inl e \<Rightarrow> Inl e
           | Inr last_w \<Rightarrow>
               (let txt = normalize_spacing_nf accum_text
                in if py_strip txt \<noteq> []
                   then Inr (sents @ [\<lparr>s_text = txt, start_time = w_start first_w,
                                       end_time = w_end last_w\<rparr>])
                   else Inr sents)))"

fun seg_loop_nf ::
  "float_ops \<Rightarrow> real \<Rightarrow> int \<Rightarrow> word list \<Rightarrow> word list \<times> sentence list
     \<Rightarrow> py_error + word list \<times> sentence list" where
  "seg_loop_nf fp gap_threshold max_chars [] (acc_ws, sents) = Inr (acc_ws, sents)"
| "seg_loop_nf fp gap_threshold max_chars (w # rest) (acc_ws, sents) =
     (let acc1 = acc_ws @ [w];
          next_w = (case rest of [] \<Rightarrow> None | nw # _ \<Rightarrow> Some nw);
          accum_text = concat (map w_text acc1);
          need_close =
            (if should_close_sentence_nf fp accum_text w next_w gap_threshold then True
             else if max_chars \<le> int (length accum_text) then True
             else False)
      in if need_close then
           (case emit_sentence_nf acc1 accum_text sents of
              Inl e \<Rightarrow> Inl e
            | Inr sents1 \<Rightarrow> seg_loop_nf fp gap_threshold max_chars rest ([], sents1))
         else seg_loop_nf fp gap_threshold max_chars rest (acc1, sents))"

definition words_to_sentences_nf ::
  "float_ops \<Rightarrow> word list \<Rightarrow> real \<Rightarrow> int \<Rightarrow> py_error + sentence list" where
  "words_to_sentences_nf fp words gap_threshold max_chars =
     (if words = [] then Inr []
      else
        case seg_loop_nf fp gap_threshold max_chars words ([], []) of
          Inl e \<Rightarrow> Inl e
        | Inr (acc_ws, sents) \<Rightarrow>
            if acc_ws \<noteq> [] then
              emit_sentence_nf acc_ws (concat (map w_text acc_ws)) sents
            else Inr sents)"

section \<open>Notions used to state the properties\<close>

text \<open>The closing rule as the specification words it: punctuation at the end of the
  accumulated text, or a next word at a gap of at least the threshold, or the length guard.
  \<open>rest\<close> holds the words after the current one; the gap is the float difference.\<close>

definition closes :: "float_ops \<Rightarrow> word list \<Rightarrow> word \<Rightarrow> word list \<Rightarrow> real \<Rightarrow> int \<Rightarrow> bool" where
  "closes fp a w rest g m =
     (let t = concat (map w_text a) in
      (t \<noteq> [] \<and> last t \<in> SENTENCE_END_CHARS) \<or>
      (rest \<noteq> [] \<and> py_ge (fsub fp (w_start (hd rest)) (w_end w)) g) \<or>
      m \<le> int (length t))"

text \<open>The history that the loop writes, as a function of the accumulator at entry and of the
  words still to visit, and the accumulator that is open after a history.\<close>

fun trace_of ::
  "float_ops \<Rightarrow> real \<Rightarrow> int \<Rightarrow> word list \<Rightarrow> word list \<Rightarrow> (word list \<times> bool) list" where
  "trace_of fp g m a [] = []"
| "trace_of fp g m a (w # rest) =
     (a @ [w], closes fp (a @ [w]) w rest g m)
       # trace_of fp g m (if closes fp (a @ [w]) w rest g m then [] else a @ [w]) rest"

definition open_acc :: "word list \<Rightarrow> (word list \<times> bool) list \<Rightarrow> word list" where
  "open_acc a T = (if T = [] then a else if snd (last T) then [] else fst (last T))"

text \<open>The accumulators that were closed, in order: those closed inside the loop, then the one
  flushed after it. The sentence that an accumulator yields, and whether it yields one.\<close>

definition groups_of :: "seg_state \<Rightarrow> word list list" where
  "groups_of st =
     map fst (filter snd (steps st)) @ (if accum st = [] then [] else [accum st])"

definition sentence_of_group :: "word list \<Rightarrow> sentence" where
  "sentence_of_group a =
     \<lparr>s_text = normalize_spacing (concat (map w_text a)),
      start_time = w_start (hd a), end_time = w_end (last a)\<rparr>"

definition group_emits :: "word list \<Rightarrow> bool" where
  "group_emits a = (py_strip (normalize_spacing (concat (map w_text a))) \<noteq> [])"

text \<open>The constituent words of the emitted sentences, in emission order.\<close>

definition constituents :: "float_ops \<Rightarrow> word list \<Rightarrow> real \<Rightarrow> int \<Rightarrow> word list" where
  "constituents fp ws g m =
     (case segment_run fp ws g m of
        Inl e \<Rightarrow> []
      | Inr st \<Rightarrow> concat (filter group_emits (groups_of st)))"

text \<open>Shapes of text. \<open>single_spaced\<close>: every whitespace character is a space (32) and no
  whitespace character follows it. \<open>well_spaced cls\<close>: every whitespace character is a
  space that is followed by a character which is neither whitespace nor in \<open>cls\<close>; so there
  is no whitespace at the end, no run of two, and none before a character of \<open>cls\<close>.\<close>

fun single_spaced :: "pystr \<Rightarrow> bool" where
  "single_spaced [] = True"
| "single_spaced [c] = (is_space c \<longrightarrow> c = 32)"
| "single_spaced (c # d # cs) =
     ((is_space c \<longrightarrow> c = 32 \<and> \<not> is_space d) \<and> single_spaced (d # cs))"

fun well_spaced :: "nat set \<Rightarrow> pystr \<Rightarrow> bool" where
  "well_spaced cls [] = True"
| "well_spaced cls [c] = (\<not> is_space c)"
| "well_spaced cls (c # d # cs) =
     ((is_space c \<longrightarrow> c = 32 \<and> \<not> is_space d \<and> d \<notin> cls) \<and> well_spaced cls (d # cs))"

text \<open>The millisecond bounds as the specification words them, with \<^verbatim>\<open>round\<close> in place of
  \<^verbatim>\<open>int\<close>: \<^verbatim>\<open>round(x)\<close> gives the nearest integer, a half going to the even neighbour, and
  raises where \<^verbatim>\<open>int\<close> does.\<close>

definition py_round_real :: "real \<Rightarrow> int" where
  "py_round_real x =
     (let f = \<lfloor>x\<rfloor>; d = x - of_int f
      in if d < 1 / 2 then f else if 1 / 2 < d then f + 1 else if even f then f else f + 1)"

definition py_round :: "pyfloat \<Rightarrow> py_error + int" where
  "py_round x =
     (case x of
        Finite r \<Rightarrow> Inr (py_round_real r)
      | PosInf \<Rightarrow> Inl OverflowError
      | NegInf \<Rightarrow> Inl OverflowError
      | NaN \<Rightarrow> Inl ValueError)"

definition spec_clip_bounds :: "float_ops \<Rightarrow> sentence \<Rightarrow> py_error + int \<times> int" where
  "spec_clip_bounds fp sent =
     (case py_round (fmul fp (start_time sent) 1000) of
        Inl e \<Rightarrow> Inl e
      | Inr s \<Rightarrow>
          (let start_ms = max s 0
           in case py_round (fmul fp (end_time sent) 1000) of
                Inl e \<Rightarrow> Inl e
              | Inr t \<Rightarrow>
                  (let end_ms = max t (start_ms + 1)
                   in Inr (start_ms, end_ms))))"

text \<open>The paths of the manifest of an export that starts from an empty disk; the empty list
  when the export fails.\<close>

definition manifest_paths :: "float_ops \<Rightarrow> codec \<Rightarrow> sentence list \<Rightarrow> string list" where
  "manifest_paths fp cd sents =
     (case fst (export_clips fp cd sents []) of Inl e \<Rightarrow> [] | Inr items \<Rightarrow> map path items)"

text \<open>For the sentence of ordinal \<open>i\<close>: the manifest entry; whether its clip fails, that is,
  \<^verbatim>\<open>int\<close> raises on one of its bounds or the audio library fails on it; and, for a sentence
  whose bounds are computed, the clip that is written. Then the entries and the clips of a
  list of sentences numbered from \<open>i\<close>.\<close>

definition clip_entry :: "float_ops \<Rightarrow> nat \<Rightarrow> sentence \<Rightarrow> clip_record" where
  "clip_entry fp i sent =
     \<lparr>c_text = s_text sent, c_start_time = fround3 fp (start_time sent),
      c_end_time = fround3 fp (end_time sent), path = ''segments/'' @ segment_filename i\<rparr>"

definition clip_fails :: "float_ops \<Rightarrow> codec \<Rightarrow> nat \<Rightarrow> sentence \<Rightarrow> bool" where
  "clip_fails fp cd i sent =
     (case clip_bounds fp sent of
        Inl e \<Rightarrow> True
      | Inr (a, b) \<Rightarrow> cd (''segments/'' @ segment_filename i) a b \<noteq> None)"

definition clip_event :: "float_ops \<Rightarrow> nat \<Rightarrow> sentence \<Rightarrow> io_event" where
  "clip_event fp i sent =
     ClipWritten (''segments/'' @ segment_filename i)
       (fst (projr (clip_bounds fp sent))) (snd (projr (clip_bounds fp sent)))"

fun entries_from :: "float_ops \<Rightarrow> nat \<Rightarrow> sentence list \<Rightarrow> clip_record list" where
  "entries_from fp i [] = []"
| "entries_from fp i (sent # rest) = clip_entry fp i sent # entries_from fp (Suc i) rest"

fun events_from :: "float_ops \<Rightarrow> nat \<Rightarrow> sentence list \<Rightarrow> io_event list" where
  "events_from fp i [] = []"
| "events_from fp i (sent # rest) = clip_event fp i sent # events_from fp (Suc i) rest"

text \<open>The number that a string of decimal digits denotes.\<close>

definition dec_value :: "string \<Rightarrow> nat" where
  "dec_value s = foldl (\<lambda>a c. 10 * a + (of_char c - 48)) 0 s"

text \<open>For the examples. A float operation returns the exact result whenever that result is
  itself a float, and \<^verbatim>\<open>round(x, 3)\<close> returns \<open>x\<close> when \<open>x\<close> is a multiple of 1/1000. The
  examples use \<open>exact_ops\<close> only at such operands: timestamps and thresholds that are small
  multiples of a power of 1/2. Then two audio libraries: one that never fails, one that fails
  on the clip of a given path.\<close>

definition exact_ops :: float_ops where
  "exact_ops =
     \<lparr>fsub = (\<lambda>a b. Finite (a - b)), fadd = (\<lambda>a b. Finite (a + b)),
      fmul = (\<lambda>a b. Finite (a * b)), fdiv = (\<lambda>a b. Finite (a / b)),
      fround3 = (\<lambda>a. a)\<rparr>"

definition codec_ok :: codec where
  "codec_ok p a b = None"

definition codec_fail_at :: "string \<Rightarrow> codec" where
  "codec_fail_at q p a b = (if p = q then Some ExportError else None)"

definition is_json :: "io_event \<Rightarrow> bool" where
  "is_json ev = (case ev of JsonWritten items \<Rightarrow> True | _ \<Rightarrow> False)"

definition is_clip :: "io_event \<Rightarrow> bool" where
  "is_clip ev = (case ev of ClipWritten p a b \<Rightarrow> True | _ \<Rightarrow> False)"

section \<open>The loop of the segmenter and its history\<close>

lemma py_item_first: "xs \<noteq> [] \<Longrightarrow> py_item xs 0 = Inr (hd xs)"
  by (cases xs) (simp_all add: py_item_def)

lemma py_item_last: "xs \<noteq> [] \<Longrightarrow> py_item xs (- 1) = Inr (last xs)"
proof -
  assume ne: "xs \<noteq> []"
  then have "nat (int (length xs) - 1) = length xs - 1" by simp
  with ne show ?thesis
    by (simp add: py_item_def last_conv_nth)
qed

lemma py_item_empty: "py_item [] i = Inl IndexError"
  by (simp add: py_item_def)

lemma emit_sentence_nonempty:
  "a \<noteq> [] \<Longrightarrow> emit_sentence a (concat (map w_text a)) sents =
     Inr (sents @ map sentence_of_group (filter group_emits [a]))"
  by (simp add: emit_sentence_def py_item_first py_item_last sentence_of_group_def group_emits_def Let_def)

lemma need_close_closes:
  "(if should_close_sentence fp (concat (map w_text a)) w (case rest of [] \<Rightarrow> None | nw # _ \<Rightarrow> Some nw) g
    then True else if m \<le> int (length (concat (map w_text a))) then True else False)
   = closes fp a w rest g m"
  by (cases rest) (auto simp: should_close_sentence_def closes_def Let_def)

lemma seg_loop_step:
  "seg_loop fp g m (w # rest) st =
     seg_loop fp g m rest
       (if closes fp (accum st @ [w]) w rest g m
        then \<lparr>accum = [],
              sentences = sentences st @ map sentence_of_group (filter group_emits [accum st @ [w]]),
              steps = steps st @ [(accum st @ [w], True)]\<rparr>
        else \<lparr>accum = accum st @ [w], sentences = sentences st,
              steps = steps st @ [(accum st @ [w], False)]\<rparr>)"
proof -
  have ne: "accum st @ [w] \<noteq> []" by simp
  show ?thesis
    unfolding seg_loop.simps Let_def need_close_closes emit_sentence_nonempty[OF ne]
    by simp
qed

lemma seg_loop_trace:
  "seg_loop fp g m rest st =
     Inr \<lparr>accum = open_acc (accum st) (trace_of fp g m (accum st) rest),
          sentences = sentences st @
            map sentence_of_group (filter group_emits (map fst (filter snd (trace_of fp g m (accum st) rest)))),
          steps = steps st @ trace_of fp g m (accum st) rest\<rparr>"
proof (induction rest arbitrary: st)
  case Nil
  show ?case by (simp add: open_acc_def)
next
  case (Cons w rest)
  show ?case
    unfolding seg_loop_step Cons.IH
    by (simp add: open_acc_def)
qed



lemma trace_of_nonempty: "x \<in> set (trace_of fp g m a rest) \<Longrightarrow> fst x \<noteq> []"
  by (induction rest arbitrary: a) auto

lemma open_acc_Cons: "open_acc a ((x, c) # T) = open_acc (if c then [] else x) T"
  by (simp add: open_acc_def)

lemma trace_of_partition:
  "concat (map fst (filter snd (trace_of fp g m a rest))) @ open_acc a (trace_of fp g m a rest) = a @ rest"
proof (induction rest arbitrary: a)
  case Nil
  show ?case by (simp add: open_acc_def)
next
  case (Cons w rest)
  show ?case
    by (simp add: open_acc_Cons Cons.IH)
qed

lemma trace_of_nth:
  "i < length rest \<Longrightarrow>
   trace_of fp g m a rest ! i =
     ((if i = 0 then a
       else if snd (trace_of fp g m a rest ! (i - 1)) then []
       else fst (trace_of fp g m a rest ! (i - 1))) @ [rest ! i],
      closes fp ((if i = 0 then a
       else if snd (trace_of fp g m a rest ! (i - 1)) then []
       else fst (trace_of fp g m a rest ! (i - 1))) @ [rest ! i]) (rest ! i) (drop (Suc i) rest) g m)"
proof (induction rest arbitrary: a i)
  case Nil
  then show ?case by simp
next
  case (Cons w rest)
  show ?case
  proof (cases i)
    case 0
    then show ?thesis by simp
  next
    case (Suc j)
    with Cons.prems have j: "j < length rest" by simp
    show ?thesis
    proof (cases j)
      case 0
      with Suc j Cons.IH[OF j, of "if closes fp (a @ [w]) w rest g m then [] else a @ [w]"]
      show ?thesis by simp
    next
      case (Suc k)
      with \<open>i = Suc j\<close> j Cons.IH[OF j, of "if closes fp (a @ [w]) w rest g m then [] else a @ [w]"]
      show ?thesis by simp
    qed
  qed
qed

lemma segment_run_trace:
  "\<exists>st. segment_run fp ws g m = Inr st \<and> steps st = trace_of fp g m [] ws \<and>
        accum st = open_acc [] (trace_of fp g m [] ws) \<and>
        sentences st = map sentence_of_group (filter group_emits (groups_of st))"
proof (cases "ws = []")
  case True
  then show ?thesis
    by (simp add: segment_run_def groups_of_def open_acc_def)
next
  case False
  show ?thesis
  proof (cases "open_acc [] (trace_of fp g m [] ws) = []")
    case True
    with False show ?thesis
      by (simp add: segment_run_def seg_loop_trace groups_of_def)
  next
    case ne: False
    with False show ?thesis
      by (simp add: segment_run_def seg_loop_trace groups_of_def emit_sentence_nonempty)
  qed
qed




lemma is_space_32: "is_space 32"
  by (simp add: is_space_def)

lemma single_spaced_Cons:
  "single_spaced (c # xs) =
     ((is_space c \<longrightarrow> c = 32 \<and> (xs \<noteq> [] \<longrightarrow> \<not> is_space (hd xs))) \<and> single_spaced xs)"
  by (cases xs) auto

lemma well_spaced_Cons:
  "well_spaced cls (c # xs) =
     ((is_space c \<longrightarrow> c = 32 \<and> xs \<noteq> [] \<and> \<not> is_space (hd xs) \<and> hd xs \<notin> cls) \<and> well_spaced cls xs)"
  by (cases xs) auto

lemma re_sub_spaces_hd:
  "s = [] \<or> \<not> is_space (hd s) \<Longrightarrow>
   re_sub_spaces s = [] \<or> \<not> is_space (hd (re_sub_spaces s))"
  by (cases s) auto

lemma dropWhile_hd: "dropWhile P xs = [] \<or> \<not> P (hd (dropWhile P xs))"
  using hd_dropWhile by blast

lemma single_spaced_re_sub_spaces: "single_spaced (re_sub_spaces s)"
proof (induction s rule: re_sub_spaces.induct)
  case 1
  show ?case by simp
next
  case (2 c cs)
  show ?case
  proof (cases "is_space c")
    case True
    have "re_sub_spaces (dropWhile is_space cs) = [] \<or>
          \<not> is_space (hd (re_sub_spaces (dropWhile is_space cs)))"
      by (rule re_sub_spaces_hd) (rule dropWhile_hd)
    with True 2 show ?thesis
      by (auto simp: single_spaced_Cons)
  next
    case False
    with 2 show ?thesis by (simp add: single_spaced_Cons)
  qed
qed

lemma single_spaced_append:
  "single_spaced (xs @ ys) \<Longrightarrow> single_spaced xs \<and> single_spaced ys"
proof (induction xs)
  case Nil
  then show ?case by simp
next
  case (Cons x xs)
  then show ?case
    by (cases xs) (auto simp: single_spaced_Cons)
qed

lemma strip_split:
  "\<exists>pre post. s = pre @ py_strip s @ post"
proof -
  have a: "s = takeWhile is_space s @ dropWhile is_space s" by simp
  have "rev (dropWhile is_space s) =
        takeWhile is_space (rev (dropWhile is_space s)) @ dropWhile is_space (rev (dropWhile is_space s))"
    by simp
  then have "dropWhile is_space s =
     rev (dropWhile is_space (rev (dropWhile is_space s))) @ rev (takeWhile is_space (rev (dropWhile is_space s)))"
    by (metis rev_append rev_rev_ident)
  with a have "s = takeWhile is_space s @ py_strip s @ rev (takeWhile is_space (rev (dropWhile is_space s)))"
    by (simp add: py_strip_def)
  then show ?thesis by blast
qed

lemma single_spaced_strip: "single_spaced s \<Longrightarrow> single_spaced (py_strip s)"
proof -
  assume s: "single_spaced s"
  obtain pre post where "s = pre @ py_strip s @ post"
    using strip_split by blast
  with s have "single_spaced (pre @ py_strip s @ post)" by simp
  then show ?thesis
    using single_spaced_append by blast
qed

lemma strip_last: "py_strip s \<noteq> [] \<Longrightarrow> \<not> is_space (last (py_strip s))"
proof -
  assume ne: "py_strip s \<noteq> []"
  let ?u = "dropWhile is_space (rev (dropWhile is_space s))"
  from ne have "?u \<noteq> []" by (simp add: py_strip_def)
  then have "\<not> is_space (hd ?u)" using dropWhile_hd[of is_space] by blast
  moreover have "last (py_strip s) = hd ?u"
    using \<open>?u \<noteq> []\<close> by (simp add: py_strip_def last_rev)
  ultimately show ?thesis by simp
qed

lemma strip_hd: "py_strip s \<noteq> [] \<Longrightarrow> \<not> is_space (hd (py_strip s))"
proof -
  assume ne: "py_strip s \<noteq> []"
  let ?d = "dropWhile is_space s"
  have "\<exists>post. ?d = py_strip s @ post"
  proof -
    have "rev ?d = takeWhile is_space (rev ?d) @ dropWhile is_space (rev ?d)" by simp
    then have "?d = rev (dropWhile is_space (rev ?d)) @ rev (takeWhile is_space (rev ?d))"
      by (metis rev_append rev_rev_ident)
    then show ?thesis by (auto simp: py_strip_def)
  qed
  then obtain post where d: "?d = py_strip s @ post" by blast
  with ne have "?d \<noteq> []" by auto
  then have "\<not> is_space (hd ?d)" using dropWhile_hd[of is_space] by blast
  moreover from d ne have "hd ?d = hd (py_strip s)" by (metis hd_append2)
  ultimately show ?thesis by simp
qed


lemma sub_before_nonspace:
  "\<not> is_space c \<Longrightarrow> re_sub_space_before cls (c # cs) = c # re_sub_space_before cls cs"
  by simp

lemma sub_before_hd:
  "t \<noteq> [] \<Longrightarrow> \<not> is_space (hd t) \<Longrightarrow>
   re_sub_space_before cls t \<noteq> [] \<and> hd (re_sub_space_before cls t) = hd t"
  by (cases t) simp_all

lemma well_spaced_sub_before:
  assumes cls: "\<forall>p\<in>cls. \<not> is_space p"
  shows "single_spaced t \<Longrightarrow> (t \<noteq> [] \<longrightarrow> \<not> is_space (last t)) \<Longrightarrow>
         well_spaced cls (re_sub_space_before cls t)"
proof (induction cls t rule: re_sub_space_before.induct)
  case (1 cls)
  show ?case by simp
next
  case (2 cls c cs)
  show ?case
  proof (cases "is_space c")
    case False
    from "2.prems" have ss: "single_spaced cs" and la: "cs \<noteq> [] \<longrightarrow> \<not> is_space (last cs)"
      by (auto simp: single_spaced_Cons)
    from False "2.IH"(4)[OF False ss la] False show ?thesis
      by (simp add: well_spaced_Cons)
  next
    case True
    from True "2.prems" obtain d r where cs: "cs = d # r" and d: "\<not> is_space d" and c32: "c = 32"
      by (cases cs) (auto simp: single_spaced_Cons)
    from "2.prems" cs have ssd: "single_spaced (d # r)" and ssr: "single_spaced r"
      and lad: "\<not> is_space (last (d # r))" and lar: "r \<noteq> [] \<longrightarrow> \<not> is_space (last r)"
      by (auto simp: single_spaced_Cons)
    have dw: "dropWhile is_space cs = d # r" using cs d by simp
    show ?thesis
    proof (cases "d \<in> cls")
      case in_cls: True
      from "2.IH"(2)[OF True dw in_cls ssr lar]
      have "well_spaced cls (re_sub_space_before cls r)" .
      with True dw in_cls d show ?thesis
        by (simp add: well_spaced_Cons)
    next
      case notin: False
      have "well_spaced cls (re_sub_space_before cls cs)"
        using "2.IH"(3)[OF True dw notin] ssd lad cs by simp
      with True dw notin d cs c32 show ?thesis
        by (simp add: well_spaced_Cons)
    qed
  qed
qed

lemma well_spaced_last: "well_spaced cls t \<Longrightarrow> t \<noteq> [] \<Longrightarrow> \<not> is_space (last t)"
  by (induction cls t rule: well_spaced.induct) auto

lemma well_spaced_fix_spaces: "well_spaced cls t \<Longrightarrow> re_sub_spaces t = t"
  by (induction cls t rule: well_spaced.induct) auto

lemma well_spaced_fix_before: "well_spaced cls t \<Longrightarrow> re_sub_space_before cls t = t"
  by (induction cls t rule: well_spaced.induct) auto

lemma strip_id: "t = [] \<or> (\<not> is_space (hd t) \<and> \<not> is_space (last t)) \<Longrightarrow> py_strip t = t"
proof (cases t)
  case Nil
  then show ?thesis by (simp add: py_strip_def)
next
  case (Cons c cs)
  assume "t = [] \<or> (\<not> is_space (hd t) \<and> \<not> is_space (last t))"
  with Cons have h: "\<not> is_space c" and l: "\<not> is_space (last t)" by auto
  from h Cons have "dropWhile is_space t = t" by simp
  moreover have "dropWhile is_space (rev t) = rev t"
  proof -
    obtain a r where r: "rev t = a # r"
      using Cons by (cases "rev t") auto
    have "hd (rev t) = last t" by (simp add: hd_rev)
    with r l have "\<not> is_space a" by simp
    with r show ?thesis by simp
  qed
  ultimately show ?thesis by (simp add: py_strip_def)
qed


lemma cjk_not_space: "\<forall>p\<in>{12290, 65281, 65311, 8230}. \<not> is_space p"
  by (simp add: is_space_def)

lemma normalize_well_spaced:
  "well_spaced {12290, 65281, 65311, 8230} (normalize_spacing s)"
proof -
  let ?t = "py_strip (re_sub_spaces s)"
  have "single_spaced ?t"
    by (rule single_spaced_strip) (rule single_spaced_re_sub_spaces)
  moreover have "?t \<noteq> [] \<longrightarrow> \<not> is_space (last ?t)"
    using strip_last by blast
  ultimately show ?thesis
    unfolding normalize_spacing_def Let_def
    by (rule well_spaced_sub_before[OF cjk_not_space])
qed

lemma normalize_hd:
  "normalize_spacing s \<noteq> [] \<Longrightarrow> \<not> is_space (hd (normalize_spacing s))"
proof -
  let ?t = "py_strip (re_sub_spaces s)"
  assume ne: "normalize_spacing s \<noteq> []"
  then have t: "?t \<noteq> []"
    by (auto simp: normalize_spacing_def Let_def)
  then have h: "\<not> is_space (hd ?t)" by (rule strip_hd)
  from sub_before_hd[OF t h] h show ?thesis
    by (simp add: normalize_spacing_def Let_def)
qed

lemma well_spaced_fixpoint:
  assumes ws: "well_spaced {12290, 65281, 65311, 8230} t"
    and hd: "t \<noteq> [] \<longrightarrow> \<not> is_space (hd t)"
  shows "normalize_spacing t = t"
proof -
  have a: "re_sub_spaces t = t" using ws by (rule well_spaced_fix_spaces)
  have "t = [] \<or> (\<not> is_space (hd t) \<and> \<not> is_space (last t))"
    using hd well_spaced_last[OF ws] by blast
  then have b: "py_strip t = t" by (rule strip_id)
  have c: "re_sub_space_before {12290, 65281, 65311, 8230} t = t"
    using ws by (rule well_spaced_fix_before)
  show ?thesis by (simp add: normalize_spacing_def Let_def a b c)
qed

lemma normalize_idem: "normalize_spacing (normalize_spacing s) = normalize_spacing s"
  by (rule well_spaced_fixpoint) (use normalize_well_spaced normalize_hd in blast)+

lemma well_spaced_nth:
  "well_spaced cls t \<Longrightarrow> Suc i < length t \<Longrightarrow> is_space (t ! i) \<Longrightarrow>
   t ! i = 32 \<and> \<not> is_space (t ! Suc i) \<and> t ! Suc i \<notin> cls"
proof (induction cls t arbitrary: i rule: well_spaced.induct)
  case (1 cls)
  then show ?case by simp
next
  case (2 cls c)
  then show ?case by simp
next
  case (3 cls c d cs)
  show ?case
  proof (cases i)
    case 0
    with "3.prems" show ?thesis by simp
  next
    case (Suc j)
    with "3.prems" "3.IH"[of j] show ?thesis by simp
  qed
qed

lemma words_to_sentences_groups:
  "\<exists>st. segment_run fp ws g m = Inr st \<and>
        words_to_sentences fp ws g m = Inr (map sentence_of_group (filter group_emits (groups_of st)))"
proof -
  obtain st where "segment_run fp ws g m = Inr st"
    and "sentences st = map sentence_of_group (filter group_emits (groups_of st))"
    using segment_run_trace by blast
  then show ?thesis by (simp add: words_to_sentences_def)
qed

lemma emitted_text:
  assumes "words_to_sentences fp ws g m = Inr ss" and "x \<in> set ss"
  shows "\<exists>a. s_text x = normalize_spacing a \<and> normalize_spacing a \<noteq> []"
proof -
  obtain st where "words_to_sentences fp ws g m = Inr (map sentence_of_group (filter group_emits (groups_of st)))"
    using words_to_sentences_groups by blast
  with assms obtain a where "group_emits a" and "x = sentence_of_group a"
    by auto
  then have "s_text x = normalize_spacing (concat (map w_text a))"
    and "py_strip (normalize_spacing (concat (map w_text a))) \<noteq> []"
    by (simp_all add: sentence_of_group_def group_emits_def)
  moreover have "py_strip [] = []" by (simp add: py_strip_def)
  ultimately show ?thesis by metis
qed

lemma groups_of_run:
  "\<exists>st. segment_run fp ws g m = Inr st \<and>
        sentences st = map sentence_of_group (filter group_emits (groups_of st)) \<and>
        concat (groups_of st) = ws \<and> (\<forall>a\<in>set (groups_of st). a \<noteq> [])"
proof -
  obtain st where run: "segment_run fp ws g m = Inr st" and st: "steps st = trace_of fp g m [] ws"
    and ac: "accum st = open_acc [] (trace_of fp g m [] ws)"
    and se: "sentences st = map sentence_of_group (filter group_emits (groups_of st))"
    using segment_run_trace by blast
  have "concat (groups_of st) =
        concat (map fst (filter snd (trace_of fp g m [] ws))) @ open_acc [] (trace_of fp g m [] ws)"
    by (simp add: groups_of_def st ac)
  then have c: "concat (groups_of st) = ws"
    by (simp add: trace_of_partition)
  have "\<forall>a\<in>set (groups_of st). a \<noteq> []"
    using trace_of_nonempty[of _ fp g m "[]" ws] by (auto simp: groups_of_def st)
  with run se c show ?thesis by blast
qed

lemmas segment_eval =
  words_to_sentences_def segment_run_def should_close_sentence_def SENTENCE_END_CHARS_def
  exact_ops_def py_ge_def
  emit_sentence_def py_item_def normalize_spacing_def py_strip_def is_space_def Let_def

lemmas sort_eval = sort_words_def sort_key_def

section \<open>Properties of the segmenter\<close>

text \<open>Claim C9. \<^verbatim>\<open>normalize_spacing\<close> is idempotent. Hence the text of every sentence that
  \<^verbatim>\<open>words_to_sentences\<close> emits is a fixpoint of it: the text is not empty, has no whitespace at
  either end, every whitespace character in it is a single space followed by a character that
  is not whitespace, and no space stands before one of U+3002, U+FF01, U+FF1F, U+2026.\<close>

theorem normalize_spacing_idempotent:
  "normalize_spacing (normalize_spacing s) = normalize_spacing s \<and>
   (\<forall>ss. words_to_sentences fp ws g m = Inr ss \<longrightarrow>
      (\<forall>x\<in>set ss.
         normalize_spacing (s_text x) = s_text x \<and>
         s_text x \<noteq> [] \<and> \<not> is_space (hd (s_text x)) \<and> \<not> is_space (last (s_text x)) \<and>
         (\<forall>i. Suc i < length (s_text x) \<and> is_space (s_text x ! i) \<longrightarrow>
              s_text x ! i = 32 \<and> \<not> is_space (s_text x ! Suc i) \<and>
              s_text x ! Suc i \<notin> {12290, 65281, 65311, 8230})))"
proof (intro conjI allI impI ballI)
  show "normalize_spacing (normalize_spacing s) = normalize_spacing s"
    by (rule normalize_idem)
next
  fix ss x
  assume run: "words_to_sentences fp ws g m = Inr ss" and x: "x \<in> set ss"
  then obtain a where a: "s_text x = normalize_spacing a" and ne: "normalize_spacing a \<noteq> []"
    using emitted_text by blast
  have wsp: "well_spaced {12290, 65281, 65311, 8230} (s_text x)"
    unfolding a by (rule normalize_well_spaced)
  show "normalize_spacing (s_text x) = s_text x"
    unfolding a by (rule normalize_idem)
  show "s_text x \<noteq> []" using a ne by simp
  show "\<not> is_space (hd (s_text x))"
    unfolding a using ne by (rule normalize_hd)
  show "\<not> is_space (last (s_text x))"
    using wsp \<open>s_text x \<noteq> []\<close> by (rule well_spaced_last)
  fix i
  assume "Suc i < length (s_text x) \<and> is_space (s_text x ! i)"
  then show "s_text x ! i = 32" and "\<not> is_space (s_text x ! Suc i)"
    and "s_text x ! Suc i \<notin> {12290, 65281, 65311, 8230}"
    using well_spaced_nth[OF wsp] by blast+
qed

text \<open>An instance: a word with leading whitespace and two spaces before U+3002.\<close>

theorem normalize_spacing_idempotent_witness:
  "words_to_sentences exact_ops [\<lparr>w_text = [32, 72, 105, 32, 32, 12290], w_start = 0, w_end = 1\<rparr>] (3 / 4) 80
     = Inr [\<lparr>s_text = [72, 105, 12290], start_time = 0, end_time = 1\<rparr>] \<and>
   normalize_spacing [72, 105, 12290] = [72, 105, 12290] \<and>
   normalize_spacing (normalize_spacing [32, 72, 105, 32, 32, 12290])
     = normalize_spacing [32, 72, 105, 32, 32, 12290]"
proof -
  have run: "words_to_sentences exact_ops [\<lparr>w_text = [32, 72, 105, 32, 32, 12290], w_start = 0, w_end = 1\<rparr>] (3 / 4) 80
     = Inr [\<lparr>s_text = [72, 105, 12290], start_time = 0, end_time = 1\<rparr>]"
    by (simp add: segment_eval)
  from normalize_spacing_idempotent
    [of "[32, 72, 105, 32, 32, 12290]" exact_ops
        "[\<lparr>w_text = [32, 72, 105, 32, 32, 12290], w_start = 0, w_end = 1\<rparr>]" "3 / 4" 80]
    run
  show ?thesis by simp
qed

lemma gap_rule_is_float_difference:
  "should_close_sentence fp [] w (Some nw) g = py_ge (fsub fp (w_start nw) (w_end w)) g"
  by (simp add: should_close_sentence_def Let_def)

text \<open>The floats nearest to 0.9, 0.1 and 0.8. Their exact difference is below the third, and
  the float difference is the third: the gap rule fires, as it does in the interpreter.\<close>

lemma gap_rule_rounds:
  assumes "fsub fp (8106479329266893 / 9007199254740992) (3602879701896397 / 36028797018963968)
             = Finite (3602879701896397 / 4503599627370496)"
  shows "should_close_sentence fp []
           \<lparr>w_text = [], w_start = 0, w_end = 3602879701896397 / 36028797018963968\<rparr>
           (Some \<lparr>w_text = [], w_start = 8106479329266893 / 9007199254740992, w_end = 1\<rparr>)
           (3602879701896397 / 4503599627370496) \<and>
         (8106479329266893 / 9007199254740992 - 3602879701896397 / 36028797018963968 :: real)
           < 3602879701896397 / 4503599627370496"
  using assms by (simp add: should_close_sentence_def Let_def py_ge_def)



text \<open>Claim C3, as amended: the closed accumulators are non-empty and their concatenation is
  the input word list in the order given; the emitted sentences are, in order, the sentences of
  the accumulators whose normalised text is not blank, so the constituent words of the emitted
  sentences are the input without the words of the blank accumulators. The segmenter does not
  sort: the concatenation is the sorted sequence when the input is already sorted by
  (start, end).\<close>

theorem segmenter_partition:
  "\<exists>st. segment_run fp ws g m = Inr st \<and>
        words_to_sentences fp ws g m = Inr (map sentence_of_group (filter group_emits (groups_of st))) \<and>
        constituents fp ws g m = concat (filter group_emits (groups_of st)) \<and>
        concat (groups_of st) = ws \<and>
        (\<forall>a\<in>set (groups_of st). a \<noteq> []) \<and>
        (sorted (map (\<lambda>w. (w_start w, w_end w)) ws) \<longrightarrow> concat (groups_of st) = sort_words ws)"
proof -
  obtain st where run: "segment_run fp ws g m = Inr st"
    and se: "sentences st = map sentence_of_group (filter group_emits (groups_of st))"
    and c: "concat (groups_of st) = ws" and ne: "\<forall>a\<in>set (groups_of st). a \<noteq> []"
    using groups_of_run by blast
  have "sorted (map (\<lambda>w. (w_start w, w_end w)) ws) \<longrightarrow> sort_words ws = ws"
    by (simp add: sort_words_def sort_key_id_if_sorted)
  with run se c ne show ?thesis
    by (auto simp: words_to_sentences_def constituents_def)
qed

text \<open>An instance: three words, the second of which is a lone space closed by a gap and
  discarded.\<close>

theorem segmenter_partition_witness:
  "\<exists>st. segment_run exact_ops [\<lparr>w_text = [72, 105, 46], w_start = 0, w_end = 1\<rparr>,
                       \<lparr>w_text = [32], w_start = 1, w_end = 2\<rparr>,
                       \<lparr>w_text = [97], w_start = 3, w_end = 4\<rparr>] 1 80 = Inr st \<and>
        groups_of st = [[\<lparr>w_text = [72, 105, 46], w_start = 0, w_end = 1\<rparr>],
                        [\<lparr>w_text = [32], w_start = 1, w_end = 2\<rparr>],
                        [\<lparr>w_text = [97], w_start = 3, w_end = 4\<rparr>]] \<and>
        constituents exact_ops [\<lparr>w_text = [72, 105, 46], w_start = 0, w_end = 1\<rparr>,
                       \<lparr>w_text = [32], w_start = 1, w_end = 2\<rparr>,
                       \<lparr>w_text = [97], w_start = 3, w_end = 4\<rparr>] 1 80
          = [\<lparr>w_text = [72, 105, 46], w_start = 0, w_end = 1\<rparr>,
             \<lparr>w_text = [97], w_start = 3, w_end = 4\<rparr>] \<and>
        concat (groups_of st) = sort_words [\<lparr>w_text = [72, 105, 46], w_start = 0, w_end = 1\<rparr>,
                       \<lparr>w_text = [32], w_start = 1, w_end = 2\<rparr>,
                       \<lparr>w_text = [97], w_start = 3, w_end = 4\<rparr>]"
  using segmenter_partition
    [of exact_ops "[\<lparr>w_text = [72, 105, 46], w_start = 0, w_end = 1\<rparr>,
          \<lparr>w_text = [32], w_start = 1, w_end = 2\<rparr>,
          \<lparr>w_text = [97], w_start = 3, w_end = 4\<rparr>]" 1 80]
  by (auto simp: segment_eval groups_of_def group_emits_def)

text \<open>On an input that is not sorted the constituent words of the one emitted sentence are the
  input in the order given, which is not the sorted sequence.\<close>

theorem segmenter_partition_counterexample:
  "constituents exact_ops [\<lparr>w_text = [97], w_start = 5, w_end = 6\<rparr>,
                 \<lparr>w_text = [98], w_start = 1, w_end = 2\<rparr>] (3 / 4) 80
     = [\<lparr>w_text = [97], w_start = 5, w_end = 6\<rparr>, \<lparr>w_text = [98], w_start = 1, w_end = 2\<rparr>] \<and>
   sort_words [\<lparr>w_text = [97], w_start = 5, w_end = 6\<rparr>,
               \<lparr>w_text = [98], w_start = 1, w_end = 2\<rparr>]
     = [\<lparr>w_text = [98], w_start = 1, w_end = 2\<rparr>, \<lparr>w_text = [97], w_start = 5, w_end = 6\<rparr>] \<and>
   constituents exact_ops [\<lparr>w_text = [97], w_start = 5, w_end = 6\<rparr>,
                 \<lparr>w_text = [98], w_start = 1, w_end = 2\<rparr>] (3 / 4) 80
     \<noteq> sort_words [\<lparr>w_text = [97], w_start = 5, w_end = 6\<rparr>,
                   \<lparr>w_text = [98], w_start = 1, w_end = 2\<rparr>]"
  by (simp add: constituents_def groups_of_def group_emits_def segment_eval sort_eval)

text \<open>Claim C8. \<^verbatim>\<open>words_to_sentences\<close> returns the empty list on the empty list, and on every
  word list whose words satisfy \<open>start \<le> end\<close> it returns a list of sentences: neither
  \<^verbatim>\<open>acc[0]\<close> nor \<^verbatim>\<open>acc[-1]\<close> raises. The proof does not use the hypothesis on the
  timing.\<close>

theorem segmenter_total:
  "words_to_sentences fp [] g m = Inr [] \<and>
   ((\<forall>w\<in>set ws. w_start w \<le> w_end w) \<longrightarrow> (\<exists>ss. words_to_sentences fp ws g m = Inr ss))"
proof
  show "words_to_sentences fp [] g m = Inr []"
    by (simp add: words_to_sentences_def segment_run_def)
  show "(\<forall>w\<in>set ws. w_start w \<le> w_end w) \<longrightarrow> (\<exists>ss. words_to_sentences fp ws g m = Inr ss)"
    using words_to_sentences_groups[of fp ws g m] by blast
qed

text \<open>An instance with one word.\<close>

theorem segmenter_total_witness:
  "w_start \<lparr>w_text = [72, 105], w_start = 0, w_end = 1 / 2\<rparr>
     \<le> w_end \<lparr>w_text = [72, 105], w_start = 0, w_end = 1 / 2\<rparr> \<and>
   (\<exists>ss. words_to_sentences exact_ops [\<lparr>w_text = [72, 105], w_start = 0, w_end = 1 / 2\<rparr>] (3 / 4) 80
      = Inr ss)"
  using segmenter_total [of exact_ops "3 / 4" 80 "[\<lparr>w_text = [72, 105], w_start = 0, w_end = 1 / 2\<rparr>]"]
  by simp


section \<open>Order of the input\<close>

lemma sorted_concat_elem:
  "sorted (map f (concat gs)) \<Longrightarrow> a \<in> set gs \<Longrightarrow> sorted (map f a)"
  by (induction gs) (auto simp: sorted_append)

lemma sorted_hd_last:
  "sorted (map f a) \<Longrightarrow> a \<noteq> [] \<Longrightarrow> f (hd a) \<le> f (last a)"
  by (cases a) (auto simp: )

lemma sorted_heads:
  "sorted (map f (concat gs)) \<Longrightarrow> \<forall>a\<in>set gs. a \<noteq> [] \<Longrightarrow>
   sorted (map (\<lambda>a. f (hd a)) gs)"
proof (induction gs)
  case Nil
  show ?case by simp
next
  case (Cons a gs)
  from Cons.prems have a: "a \<noteq> []" and rest: "\<forall>b\<in>set gs. b \<noteq> []" by auto
  from Cons.prems(1) have s: "sorted (map f (concat gs))"
    and le: "\<forall>x\<in>set a. \<forall>y\<in>set (concat gs). f x \<le> f y"
    by (auto simp: sorted_append)
  have "\<forall>b\<in>set gs. f (hd a) \<le> f (hd b)"
  proof
    fix b assume b: "b \<in> set gs"
    with rest have "b \<noteq> []" by blast
    then have "hd b \<in> set b" by simp
    with b have "hd b \<in> set (concat gs)" by auto
    moreover from a have "hd a \<in> set a" by simp
    ultimately show "f (hd a) \<le> f (hd b)" using le by blast
  qed
  with Cons.IH[OF s rest] show ?case by simp
qed

lemma transcribe_sorts:
  assumes "transcribe fp segments = Some (words, objs)"
  shows "\<exists>collected. collect_words fp segments = Some collected \<and>
           words = sort_words collected \<and>
           sorted (map (\<lambda>w. (w_start w, w_end w)) words) \<and>
           mset words = mset collected \<and>
           (\<forall>k. filter (\<lambda>w. (w_start w, w_end w) = k) words
                = filter (\<lambda>w. (w_start w, w_end w) = k) collected)"
proof -
  from assms obtain collected where c: "collect_words fp segments = Some collected"
    and w: "words = sort_words collected"
    by (auto simp: transcribe_def split: option.splits)
  have "sorted (map (\<lambda>w. (w_start w, w_end w)) words)"
    by (simp add: w sort_words_def)
  moreover have "mset words = mset collected"
    by (simp add: w sort_words_def)
  moreover have "\<forall>k. filter (\<lambda>w. (w_start w, w_end w) = k) words
                = filter (\<lambda>w. (w_start w, w_end w) = k) collected"
    by (simp add: w sort_words_def sort_key_stable)
  ultimately show ?thesis using c w by blast
qed

lemma segmenter_keeps_order:
  "\<exists>st. segment_run fp ws g m = Inr st \<and>
        words_to_sentences fp ws g m
          = Inr (map sentence_of_group (filter group_emits (groups_of st))) \<and>
        concat (groups_of st) = ws \<and>
        (\<forall>i<length ws. fst (steps st ! i) \<noteq> [] \<and> last (fst (steps st ! i)) = ws ! i)"
proof -
  obtain st where run: "segment_run fp ws g m = Inr st" and st: "steps st = trace_of fp g m [] ws"
    and se: "sentences st = map sentence_of_group (filter group_emits (groups_of st))"
    using segment_run_trace by blast
  obtain st' where run': "segment_run fp ws g m = Inr st'" and c: "concat (groups_of st') = ws"
    using groups_of_run by blast
  from run run' have c': "concat (groups_of st) = ws" using c by simp
  have "\<forall>i<length ws. fst (steps st ! i) \<noteq> [] \<and> last (fst (steps st ! i)) = ws ! i"
  proof (intro allI impI)
    fix i assume i: "i < length ws"
    show "fst (steps st ! i) \<noteq> [] \<and> last (fst (steps st ! i)) = ws ! i"
      unfolding st by (subst trace_of_nth[OF i], subst trace_of_nth[OF i]) simp
  qed
  with run se c' show ?thesis
    by (auto simp: words_to_sentences_def)
qed

text \<open>Claim C2, as amended: the sort by (start, end) is the last step of \<^verbatim>\<open>transcribe\<close>, not a
  step of the segmenter. The list that \<^verbatim>\<open>transcribe\<close> returns is the stable sort of the words
  it collected: sorted by (start, end), the same words, words of equal key in the order of
  collection; \<^verbatim>\<open>main\<close> passes that list to the segmenter. \<^verbatim>\<open>words_to_sentences\<close> processes the
  words in the order given: step \<open>i\<close> appends word \<open>i\<close>, and the sentences returned are those of
  the closed accumulators, whose concatenation is the input. When the input is already sorted
  by (start, end), sorting does not change it, nor the result.\<close>

theorem sort_in_transcribe:
  "(transcribe fp segments = Some (words, objs) \<longrightarrow>
      (\<exists>collected. collect_words fp segments = Some collected \<and>
         words = sort_words collected \<and>
         sorted (map (\<lambda>w. (w_start w, w_end w)) words) \<and>
         mset words = mset collected \<and>
         (\<forall>k. filter (\<lambda>w. (w_start w, w_end w) = k) words
              = filter (\<lambda>w. (w_start w, w_end w) = k) collected)) \<and>
      main_sentences fp segments g = Some (words_to_sentences fp words g 80)) \<and>
   (\<exists>st. segment_run fp ws g m = Inr st \<and>
      words_to_sentences fp ws g m
        = Inr (map sentence_of_group (filter group_emits (groups_of st))) \<and>
      concat (groups_of st) = ws \<and>
      (\<forall>i<length ws. fst (steps st ! i) \<noteq> [] \<and> last (fst (steps st ! i)) = ws ! i)) \<and>
   (sorted (map (\<lambda>w. (w_start w, w_end w)) ws) \<longrightarrow>
      sort_words ws = ws \<and>
      words_to_sentences fp (sort_words ws) g m = words_to_sentences fp ws g m)"
proof (intro conjI impI)
  assume t: "transcribe fp segments = Some (words, objs)"
  show "\<exists>collected. collect_words fp segments = Some collected \<and>
         words = sort_words collected \<and>
         sorted (map (\<lambda>w. (w_start w, w_end w)) words) \<and>
         mset words = mset collected \<and>
         (\<forall>k. filter (\<lambda>w. (w_start w, w_end w) = k) words
              = filter (\<lambda>w. (w_start w, w_end w) = k) collected)"
    using t by (rule transcribe_sorts)
  show "main_sentences fp segments g = Some (words_to_sentences fp words g 80)"
    using t by (simp add: main_sentences_def)
next
  show "\<exists>st. segment_run fp ws g m = Inr st \<and>
      words_to_sentences fp ws g m
        = Inr (map sentence_of_group (filter group_emits (groups_of st))) \<and>
      concat (groups_of st) = ws \<and>
      (\<forall>i<length ws. fst (steps st ! i) \<noteq> [] \<and> last (fst (steps st ! i)) = ws ! i)"
    by (rule segmenter_keeps_order)
next
  assume s: "sorted (map (\<lambda>w. (w_start w, w_end w)) ws)"
  then show id: "sort_words ws = ws"
    by (simp add: sort_words_def sort_key_id_if_sorted)
  show "words_to_sentences fp (sort_words ws) g m = words_to_sentences fp ws g m"
    by (simp only: id)
qed

lemmas transcribe_eval =
  transcribe_def main_sentences_def segment_words_def segment_fallback_def py_le_def

text \<open>An instance: the recognizer returns a late segment with timed words (and one word
  without timing, which is skipped), then an early segment without words, whose text " hi" is
  spread over its duration. The collected words are "b.", "h", "i"; \<^verbatim>\<open>transcribe\<close> returns them
  as "h", "i", "b.", and the segmenter yields "hi" and "b.".\<close>

theorem sort_in_transcribe_witness:
  "transcribe exact_ops [\<lparr>seg_start = Some 3, seg_end = Some (13 / 4), seg_text = [98, 46],
        seg_words = Some [\<lparr>rw_word = [98, 46], rw_start = Some 3, rw_end = Some (13 / 4)\<rparr>,
                          \<lparr>rw_word = [120], rw_start = None, rw_end = None\<rparr>]\<rparr>,
      \<lparr>seg_start = Some 0, seg_end = Some 1, seg_text = [32, 104, 105],
        seg_words = None\<rparr>]
     = Some ([\<lparr>w_text = [104], w_start = 0, w_end = 1 / 2\<rparr>,
      \<lparr>w_text = [105], w_start = 1 / 2, w_end = 1\<rparr>,
      \<lparr>w_text = [98, 46], w_start = 3, w_end = 13 / 4\<rparr>],
             [\<lparr>so_start = Some 3, so_end = Some (13 / 4), so_text = [98, 46]\<rparr>,
       \<lparr>so_start = Some 0, so_end = Some 1, so_text = [104, 105]\<rparr>]) \<and>
   collect_words exact_ops [\<lparr>seg_start = Some 3, seg_end = Some (13 / 4), seg_text = [98, 46],
        seg_words = Some [\<lparr>rw_word = [98, 46], rw_start = Some 3, rw_end = Some (13 / 4)\<rparr>,
                          \<lparr>rw_word = [120], rw_start = None, rw_end = None\<rparr>]\<rparr>,
      \<lparr>seg_start = Some 0, seg_end = Some 1, seg_text = [32, 104, 105],
        seg_words = None\<rparr>]
     = Some [\<lparr>w_text = [98, 46], w_start = 3, w_end = 13 / 4\<rparr>,
      \<lparr>w_text = [104], w_start = 0, w_end = 1 / 2\<rparr>,
      \<lparr>w_text = [105], w_start = 1 / 2, w_end = 1\<rparr>] \<and>
   [\<lparr>w_text = [104], w_start = 0, w_end = 1 / 2\<rparr>,
      \<lparr>w_text = [105], w_start = 1 / 2, w_end = 1\<rparr>,
      \<lparr>w_text = [98, 46], w_start = 3, w_end = 13 / 4\<rparr>]
     = sort_words [\<lparr>w_text = [98, 46], w_start = 3, w_end = 13 / 4\<rparr>,
      \<lparr>w_text = [104], w_start = 0, w_end = 1 / 2\<rparr>,
      \<lparr>w_text = [105], w_start = 1 / 2, w_end = 1\<rparr>] \<and>
   sorted (map (\<lambda>w. (w_start w, w_end w)) [\<lparr>w_text = [104], w_start = 0, w_end = 1 / 2\<rparr>,
      \<lparr>w_text = [105], w_start = 1 / 2, w_end = 1\<rparr>,
      \<lparr>w_text = [98, 46], w_start = 3, w_end = 13 / 4\<rparr>]) \<and>
   main_sentences exact_ops [\<lparr>seg_start = Some 3, seg_end = Some (13 / 4), seg_text = [98, 46],
        seg_words = Some [\<lparr>rw_word = [98, 46], rw_start = Some 3, rw_end = Some (13 / 4)\<rparr>,
                          \<lparr>rw_word = [120], rw_start = None, rw_end = None\<rparr>]\<rparr>,
      \<lparr>seg_start = Some 0, seg_end = Some 1, seg_text = [32, 104, 105],
        seg_words = None\<rparr>] (3 / 4)
     = Some (Inr [\<lparr>s_text = [104, 105], start_time = 0, end_time = 1\<rparr>,
            \<lparr>s_text = [98, 46], start_time = 3, end_time = 13 / 4\<rparr>]) \<and>
   words_to_sentences exact_ops (sort_words [\<lparr>w_text = [104], w_start = 0, w_end = 1 / 2\<rparr>,
      \<lparr>w_text = [105], w_start = 1 / 2, w_end = 1\<rparr>,
      \<lparr>w_text = [98, 46], w_start = 3, w_end = 13 / 4\<rparr>]) (3 / 4) 80
     = words_to_sentences exact_ops [\<lparr>w_text = [104], w_start = 0, w_end = 1 / 2\<rparr>,
      \<lparr>w_text = [105], w_start = 1 / 2, w_end = 1\<rparr>,
      \<lparr>w_text = [98, 46], w_start = 3, w_end = 13 / 4\<rparr>] (3 / 4) 80"
proof -
  have t: "transcribe exact_ops [\<lparr>seg_start = Some 3, seg_end = Some (13 / 4), seg_text = [98, 46],
        seg_words = Some [\<lparr>rw_word = [98, 46], rw_start = Some 3, rw_end = Some (13 / 4)\<rparr>,
                          \<lparr>rw_word = [120], rw_start = None, rw_end = None\<rparr>]\<rparr>,
      \<lparr>seg_start = Some 0, seg_end = Some 1, seg_text = [32, 104, 105],
        seg_words = None\<rparr>]
     = Some ([\<lparr>w_text = [104], w_start = 0, w_end = 1 / 2\<rparr>,
      \<lparr>w_text = [105], w_start = 1 / 2, w_end = 1\<rparr>,
      \<lparr>w_text = [98, 46], w_start = 3, w_end = 13 / 4\<rparr>],
             [\<lparr>so_start = Some 3, so_end = Some (13 / 4), so_text = [98, 46]\<rparr>,
       \<lparr>so_start = Some 0, so_end = Some 1, so_text = [104, 105]\<rparr>])"
    by (simp add: transcribe_eval sort_eval exact_ops_def py_strip_def is_space_def Let_def)
  have s: "sorted (map (\<lambda>w. (w_start w, w_end w)) [\<lparr>w_text = [104], w_start = 0, w_end = 1 / 2\<rparr>,
      \<lparr>w_text = [105], w_start = 1 / 2, w_end = 1\<rparr>,
      \<lparr>w_text = [98, 46], w_start = 3, w_end = 13 / 4\<rparr>])"
    by simp
  have r: "words_to_sentences exact_ops [\<lparr>w_text = [104], w_start = 0, w_end = 1 / 2\<rparr>,
      \<lparr>w_text = [105], w_start = 1 / 2, w_end = 1\<rparr>,
      \<lparr>w_text = [98, 46], w_start = 3, w_end = 13 / 4\<rparr>] (3 / 4) 80
     = Inr [\<lparr>s_text = [104, 105], start_time = 0, end_time = 1\<rparr>,
            \<lparr>s_text = [98, 46], start_time = 3, end_time = 13 / 4\<rparr>]"
    by (simp add: segment_eval)
  have c: "collect_words exact_ops [\<lparr>seg_start = Some 3, seg_end = Some (13 / 4), seg_text = [98, 46],
        seg_words = Some [\<lparr>rw_word = [98, 46], rw_start = Some 3, rw_end = Some (13 / 4)\<rparr>,
                          \<lparr>rw_word = [120], rw_start = None, rw_end = None\<rparr>]\<rparr>,
      \<lparr>seg_start = Some 0, seg_end = Some 1, seg_text = [32, 104, 105],
        seg_words = None\<rparr>]
     = Some [\<lparr>w_text = [98, 46], w_start = 3, w_end = 13 / 4\<rparr>,
      \<lparr>w_text = [104], w_start = 0, w_end = 1 / 2\<rparr>,
      \<lparr>w_text = [105], w_start = 1 / 2, w_end = 1\<rparr>]"
    by (simp add: transcribe_eval exact_ops_def py_strip_def is_space_def Let_def)
  have so: "[\<lparr>w_text = [104], w_start = 0, w_end = 1 / 2\<rparr>,
      \<lparr>w_text = [105], w_start = 1 / 2, w_end = 1\<rparr>,
      \<lparr>w_text = [98, 46], w_start = 3, w_end = 13 / 4\<rparr>]
     = sort_words [\<lparr>w_text = [98, 46], w_start = 3, w_end = 13 / 4\<rparr>,
      \<lparr>w_text = [104], w_start = 0, w_end = 1 / 2\<rparr>,
      \<lparr>w_text = [105], w_start = 1 / 2, w_end = 1\<rparr>]"
    by (simp add: sort_eval)
  from sort_in_transcribe
    [of exact_ops "[\<lparr>seg_start = Some 3, seg_end = Some (13 / 4), seg_text = [98, 46],
        seg_words = Some [\<lparr>rw_word = [98, 46], rw_start = Some 3, rw_end = Some (13 / 4)\<rparr>,
                          \<lparr>rw_word = [120], rw_start = None, rw_end = None\<rparr>]\<rparr>,
      \<lparr>seg_start = Some 0, seg_end = Some 1, seg_text = [32, 104, 105],
        seg_words = None\<rparr>]"
        "[\<lparr>w_text = [104], w_start = 0, w_end = 1 / 2\<rparr>,
      \<lparr>w_text = [105], w_start = 1 / 2, w_end = 1\<rparr>,
      \<lparr>w_text = [98, 46], w_start = 3, w_end = 13 / 4\<rparr>]"
        "[\<lparr>so_start = Some 3, so_end = Some (13 / 4), so_text = [98, 46]\<rparr>,
       \<lparr>so_start = Some 0, so_end = Some 1, so_text = [104, 105]\<rparr>]" "3 / 4"
        "[\<lparr>w_text = [104], w_start = 0, w_end = 1 / 2\<rparr>,
      \<lparr>w_text = [105], w_start = 1 / 2, w_end = 1\<rparr>,
      \<lparr>w_text = [98, 46], w_start = 3, w_end = 13 / 4\<rparr>]" 80]
    t
  have "main_sentences exact_ops [\<lparr>seg_start = Some 3, seg_end = Some (13 / 4), seg_text = [98, 46],
        seg_words = Some [\<lparr>rw_word = [98, 46], rw_start = Some 3, rw_end = Some (13 / 4)\<rparr>,
                          \<lparr>rw_word = [120], rw_start = None, rw_end = None\<rparr>]\<rparr>,
      \<lparr>seg_start = Some 0, seg_end = Some 1, seg_text = [32, 104, 105],
        seg_words = None\<rparr>] (3 / 4)
          = Some (words_to_sentences exact_ops [\<lparr>w_text = [104], w_start = 0, w_end = 1 / 2\<rparr>,
      \<lparr>w_text = [105], w_start = 1 / 2, w_end = 1\<rparr>,
      \<lparr>w_text = [98, 46], w_start = 3, w_end = 13 / 4\<rparr>] (3 / 4) 80)"
    by blast
  with r have m: "main_sentences exact_ops [\<lparr>seg_start = Some 3, seg_end = Some (13 / 4), seg_text = [98, 46],
        seg_words = Some [\<lparr>rw_word = [98, 46], rw_start = Some 3, rw_end = Some (13 / 4)\<rparr>,
                          \<lparr>rw_word = [120], rw_start = None, rw_end = None\<rparr>]\<rparr>,
      \<lparr>seg_start = Some 0, seg_end = Some 1, seg_text = [32, 104, 105],
        seg_words = None\<rparr>] (3 / 4)
     = Some (Inr [\<lparr>s_text = [104, 105], start_time = 0, end_time = 1\<rparr>,
            \<lparr>s_text = [98, 46], start_time = 3, end_time = 13 / 4\<rparr>])"
    by simp
  from sort_in_transcribe
    [of exact_ops "[\<lparr>seg_start = Some 3, seg_end = Some (13 / 4), seg_text = [98, 46],
        seg_words = Some [\<lparr>rw_word = [98, 46], rw_start = Some 3, rw_end = Some (13 / 4)\<rparr>,
                          \<lparr>rw_word = [120], rw_start = None, rw_end = None\<rparr>]\<rparr>,
      \<lparr>seg_start = Some 0, seg_end = Some 1, seg_text = [32, 104, 105],
        seg_words = None\<rparr>]"
        "[\<lparr>w_text = [104], w_start = 0, w_end = 1 / 2\<rparr>,
      \<lparr>w_text = [105], w_start = 1 / 2, w_end = 1\<rparr>,
      \<lparr>w_text = [98, 46], w_start = 3, w_end = 13 / 4\<rparr>]"
        "[\<lparr>so_start = Some 3, so_end = Some (13 / 4), so_text = [98, 46]\<rparr>,
       \<lparr>so_start = Some 0, so_end = Some 1, so_text = [104, 105]\<rparr>]" "3 / 4"
        "[\<lparr>w_text = [104], w_start = 0, w_end = 1 / 2\<rparr>,
      \<lparr>w_text = [105], w_start = 1 / 2, w_end = 1\<rparr>,
      \<lparr>w_text = [98, 46], w_start = 3, w_end = 13 / 4\<rparr>]" 80]
    s
  have e: "words_to_sentences exact_ops (sort_words [\<lparr>w_text = [104], w_start = 0, w_end = 1 / 2\<rparr>,
      \<lparr>w_text = [105], w_start = 1 / 2, w_end = 1\<rparr>,
      \<lparr>w_text = [98, 46], w_start = 3, w_end = 13 / 4\<rparr>]) (3 / 4) 80
     = words_to_sentences exact_ops [\<lparr>w_text = [104], w_start = 0, w_end = 1 / 2\<rparr>,
      \<lparr>w_text = [105], w_start = 1 / 2, w_end = 1\<rparr>,
      \<lparr>w_text = [98, 46], w_start = 3, w_end = 13 / 4\<rparr>] (3 / 4) 80"
    by blast
  from t c so s m e show ?thesis
    by blast
qed

text \<open>On two words given in the wrong order the segmenter joins them into one sentence,
  while on the sorted list the gap of three seconds separates them.\<close>

theorem sort_in_transcribe_counterexample:
  "words_to_sentences exact_ops [\<lparr>w_text = [97], w_start = 5, w_end = 6\<rparr>,
                       \<lparr>w_text = [98], w_start = 1, w_end = 2\<rparr>] (3 / 4) 80
     = Inr [\<lparr>s_text = [97, 98], start_time = 5, end_time = 2\<rparr>] \<and>
   words_to_sentences exact_ops (sort_words [\<lparr>w_text = [97], w_start = 5, w_end = 6\<rparr>,
                                   \<lparr>w_text = [98], w_start = 1, w_end = 2\<rparr>]) (3 / 4) 80
     = Inr [\<lparr>s_text = [98], start_time = 1, end_time = 2\<rparr>,
            \<lparr>s_text = [97], start_time = 5, end_time = 6\<rparr>] \<and>
   words_to_sentences exact_ops [\<lparr>w_text = [97], w_start = 5, w_end = 6\<rparr>,
                       \<lparr>w_text = [98], w_start = 1, w_end = 2\<rparr>] (3 / 4) 80
     \<noteq> words_to_sentences exact_ops (sort_words [\<lparr>w_text = [97], w_start = 5, w_end = 6\<rparr>,
                                   \<lparr>w_text = [98], w_start = 1, w_end = 2\<rparr>]) (3 / 4) 80"
  by (simp add: sort_eval segment_eval)

text \<open>Claim C4, as amended: when the input is sorted by start time, as the list that
  \<^verbatim>\<open>transcribe\<close> returns is, and every word has \<open>start \<le> end\<close>, every emitted sentence has
  \<open>start_time \<le> end_time\<close> and the start times of adjacent sentences do not decrease.\<close>

theorem monotonic_timing:
  assumes srt: "sorted (map w_start ws)"
    and dur: "\<forall>w\<in>set ws. w_start w \<le> w_end w"
  shows "\<exists>ss. words_to_sentences fp ws g m = Inr ss \<and>
           (\<forall>s\<in>set ss. start_time s \<le> end_time s) \<and>
           (\<forall>i. Suc i < length ss \<longrightarrow> start_time (ss ! i) \<le> start_time (ss ! Suc i))"
proof -
  obtain st where run: "segment_run fp ws g m = Inr st"
    and se: "sentences st = map sentence_of_group (filter group_emits (groups_of st))"
    and c: "concat (groups_of st) = ws" and ne: "\<forall>a\<in>set (groups_of st). a \<noteq> []"
    using groups_of_run by blast
  define gs where "gs = groups_of st"
  define ss where "ss = map sentence_of_group (filter group_emits gs)"
  have res: "words_to_sentences fp ws g m = Inr ss"
    using run se by (simp add: words_to_sentences_def ss_def gs_def)
  from srt c have sc: "sorted (map w_start (concat gs))" by (simp add: gs_def)
  from ne have ne': "\<forall>a\<in>set gs. a \<noteq> []" by (simp add: gs_def)
  have one: "\<forall>s\<in>set ss. start_time s \<le> end_time s"
  proof
    fix s assume "s \<in> set ss"
    then obtain a where a: "a \<in> set gs" and s: "s = sentence_of_group a"
      by (auto simp: ss_def)
    from ne' a have an: "a \<noteq> []" by blast
    have "sorted (map w_start a)" using sc a by (rule sorted_concat_elem)
    then have le: "w_start (hd a) \<le> w_start (last a)" using an by (rule sorted_hd_last)
    from an have "last a \<in> set a" by simp
    with a have "last a \<in> set (concat gs)" by auto
    then have "last a \<in> set ws" using c by (simp add: gs_def)
    with dur have "w_start (last a) \<le> w_end (last a)" by blast
    with le have "w_start (hd a) \<le> w_end (last a)" by linarith
    then show "start_time s \<le> end_time s" by (simp add: s sentence_of_group_def)
  qed
  have "sorted (map (\<lambda>a. w_start (hd a)) gs)"
    using sc ne' by (rule sorted_heads)
  then have "sorted (map (\<lambda>a. w_start (hd a)) (filter group_emits gs))"
    by (rule sorted_filter)
  moreover have "map start_time ss = map (\<lambda>a. w_start (hd a)) (filter group_emits gs)"
    by (simp add: ss_def sentence_of_group_def comp_def)
  ultimately have srt': "sorted (map start_time ss)" by (simp only:)
  have two: "\<forall>i. Suc i < length ss \<longrightarrow> start_time (ss ! i) \<le> start_time (ss ! Suc i)"
  proof (intro allI impI)
    fix i assume i: "Suc i < length ss"
    then have "Suc i < length (map start_time ss)" by simp
    with srt' have "map start_time ss ! i \<le> map start_time ss ! Suc i"
      by (simp only: sorted_iff_nth_Suc)
    with i show "start_time (ss ! i) \<le> start_time (ss ! Suc i)" by simp
  qed
  from res one two show ?thesis by blast
qed

text \<open>An instance: the words "He" at 0.0 to 0.5 and "llo" at 3.0 to 3.25, with a threshold of
  0.75.\<close>

theorem monotonic_timing_witness:
  "sorted (map w_start [\<lparr>w_text = [72, 101], w_start = 0, w_end = 1 / 2\<rparr>,
      \<lparr>w_text = [108, 108, 111], w_start = 3, w_end = 13 / 4\<rparr>]) \<and>
   w_start \<lparr>w_text = [72, 101], w_start = 0, w_end = 1 / 2\<rparr>
     \<le> w_end \<lparr>w_text = [72, 101], w_start = 0, w_end = 1 / 2\<rparr> \<and>
   w_start \<lparr>w_text = [108, 108, 111], w_start = 3, w_end = 13 / 4\<rparr>
     \<le> w_end \<lparr>w_text = [108, 108, 111], w_start = 3, w_end = 13 / 4\<rparr> \<and>
   (\<exists>ss. words_to_sentences exact_ops [\<lparr>w_text = [72, 101], w_start = 0, w_end = 1 / 2\<rparr>,
      \<lparr>w_text = [108, 108, 111], w_start = 3, w_end = 13 / 4\<rparr>] (3 / 4) 80 = Inr ss \<and>
      (\<forall>s\<in>set ss. start_time s \<le> end_time s) \<and>
      (\<forall>i. Suc i < length ss \<longrightarrow> start_time (ss ! i) \<le> start_time (ss ! Suc i)))"
proof -
  have h1: "sorted (map w_start [\<lparr>w_text = [72, 101], w_start = 0, w_end = 1 / 2\<rparr>,
      \<lparr>w_text = [108, 108, 111], w_start = 3, w_end = 13 / 4\<rparr>])"
    by simp
  have h2: "\<forall>w\<in>set [\<lparr>w_text = [72, 101], w_start = 0, w_end = 1 / 2\<rparr>,
      \<lparr>w_text = [108, 108, 111], w_start = 3, w_end = 13 / 4\<rparr>]. w_start w \<le> w_end w"
    by simp
  from monotonic_timing[OF h1 h2, of exact_ops "3 / 4" 80] h1 show ?thesis
    by simp
qed

text \<open>Without the order of the input the sentence can end before it starts: both words have
  \<open>start \<le> end\<close>, and the one sentence runs from 5 to 2.\<close>

theorem monotonic_timing_counterexample:
  "w_start \<lparr>w_text = [97], w_start = 5, w_end = 6\<rparr> \<le> w_end \<lparr>w_text = [97], w_start = 5, w_end = 6\<rparr> \<and>
   w_start \<lparr>w_text = [98], w_start = 1, w_end = 2\<rparr> \<le> w_end \<lparr>w_text = [98], w_start = 1, w_end = 2\<rparr> \<and>
   words_to_sentences exact_ops [\<lparr>w_text = [97], w_start = 5, w_end = 6\<rparr>,
                       \<lparr>w_text = [98], w_start = 1, w_end = 2\<rparr>] (3 / 4) 80
     = Inr [\<lparr>s_text = [97, 98], start_time = 5, end_time = 2\<rparr>] \<and>
   \<not> start_time \<lparr>s_text = [97, 98], start_time = 5, end_time = 2\<rparr>
       \<le> end_time \<lparr>s_text = [97, 98], start_time = 5, end_time = 2\<rparr>"
  by (simp add: segment_eval)

section \<open>The export loop, file names and their order\<close>

lemma clip_bounds_range: "clip_bounds fp sent = Inr (a, b) \<Longrightarrow> 0 \<le> a \<and> a + 1 \<le> b"
  by (auto simp: clip_bounds_def Let_def split: sum.splits)

lemma clip_not_fails:
  assumes "\<not> clip_fails fp cd i sent"
  shows "\<exists>a b. clip_bounds fp sent = Inr (a, b) \<and>
           cd (''segments/'' @ segment_filename i) a b = None \<and>
           clip_event fp i sent = ClipWritten (''segments/'' @ segment_filename i) a b"
proof (cases "clip_bounds fp sent")
  case (Inl e)
  with assms show ?thesis by (simp add: clip_fails_def)
next
  case (Inr ab)
  obtain a b where ab: "ab = (a, b)" by (cases ab)
  with Inr assms show ?thesis by (simp add: clip_fails_def clip_event_def)
qed

lemma export_loop_step_ok:
  assumes "\<not> clip_fails fp cd i sent"
  shows "export_loop fp cd i (sent # rest) results fs =
     export_loop fp cd (Suc i) rest (results @ [clip_entry fp i sent]) (fs @ [clip_event fp i sent])"
proof -
  from clip_not_fails[OF assms] obtain a b where "clip_bounds fp sent = Inr (a, b)"
    and "cd (''segments/'' @ segment_filename i) a b = None"
    and "clip_event fp i sent = ClipWritten (''segments/'' @ segment_filename i) a b"
    by blast
  then show ?thesis by (simp add: Let_def clip_entry_def)
qed

lemma export_loop_step_fail:
  assumes "clip_fails fp cd i sent"
  shows "\<exists>e. export_loop fp cd i (sent # rest) results fs = (Inl e, fs)"
proof (cases "clip_bounds fp sent")
  case (Inl e)
  then show ?thesis by simp
next
  case (Inr ab)
  obtain a b where ab: "ab = (a, b)" by (cases ab)
  with Inr assms obtain e where "cd (''segments/'' @ segment_filename i) a b = Some e"
    by (auto simp: clip_fails_def)
  with Inr ab show ?thesis by (simp add: Let_def)
qed

lemma export_loop_ok:
  "\<forall>k<length sents. \<not> clip_fails fp cd (i + k) (sents ! k) \<Longrightarrow>
   export_loop fp cd i sents results fs =
     (Inr (results @ entries_from fp i sents), fs @ events_from fp i sents)"
proof (induction sents arbitrary: i results fs)
  case Nil
  show ?case by simp
next
  case (Cons sent rest)
  from Cons.prems have first: "\<not> clip_fails fp cd i sent" by force
  have "\<forall>k<length rest. \<not> clip_fails fp cd (Suc i + k) (rest ! k)"
  proof (intro allI impI)
    fix k assume "k < length rest"
    then have "Suc k < length (sent # rest)" by simp
    with Cons.prems have "\<not> clip_fails fp cd (i + Suc k) ((sent # rest) ! Suc k)" by blast
    then show "\<not> clip_fails fp cd (Suc i + k) (rest ! k)" by simp
  qed
  from Cons.IH[OF this] show ?case
    unfolding export_loop_step_ok[OF first] by simp
qed

lemma export_loop_fail:
  "\<exists>k<length sents. clip_fails fp cd (i + k) (sents ! k) \<Longrightarrow>
   \<exists>e n. n < length sents \<and>
     (\<forall>k<n. \<not> clip_fails fp cd (i + k) (sents ! k)) \<and>
     export_loop fp cd i sents results fs = (Inl e, fs @ events_from fp i (take n sents))"
proof (induction sents arbitrary: i results fs)
  case Nil
  then show ?case by simp
next
  case (Cons sent rest)
  show ?case
  proof (cases "clip_fails fp cd i sent")
    case True
    from export_loop_step_fail[OF True] obtain e where
      "export_loop fp cd i (sent # rest) results fs = (Inl e, fs)" by blast
    then have "export_loop fp cd i (sent # rest) results fs
        = (Inl e, fs @ events_from fp i (take 0 (sent # rest)))"
      by simp
    moreover have "\<forall>k<(0::nat). \<not> clip_fails fp cd (i + k) ((sent # rest) ! k)" by simp
    moreover have "0 < length (sent # rest)" by simp
    ultimately show ?thesis by blast
  next
    case False
    from Cons.prems obtain k where k: "k < length (sent # rest)"
      and f: "clip_fails fp cd (i + k) ((sent # rest) ! k)" by blast
    from False f have "k \<noteq> 0" by (cases k) auto
    then obtain j where j: "k = Suc j" by (cases k) auto
    with k f have "j < length rest" and "clip_fails fp cd (Suc i + j) (rest ! j)" by simp_all
    then have "\<exists>k<length rest. clip_fails fp cd (Suc i + k) (rest ! k)" by blast
    from Cons.IH[OF this, of "results @ [clip_entry fp i sent]" "fs @ [clip_event fp i sent]"]
    obtain e n where n: "n < length rest"
      and before: "\<forall>k<n. \<not> clip_fails fp cd (Suc i + k) (rest ! k)"
      and run: "export_loop fp cd (Suc i) rest (results @ [clip_entry fp i sent])
                  (fs @ [clip_event fp i sent])
                = (Inl e, (fs @ [clip_event fp i sent]) @ events_from fp (Suc i) (take n rest))"
      by blast
    from run have "export_loop fp cd i (sent # rest) results fs
       = (Inl e, fs @ events_from fp i (take (Suc n) (sent # rest)))"
      unfolding export_loop_step_ok[OF False] by simp
    moreover from n have "Suc n < length (sent # rest)" by simp
    moreover have "\<forall>k<Suc n. \<not> clip_fails fp cd (i + k) ((sent # rest) ! k)"
    proof (intro allI impI)
      fix k assume "k < Suc n"
      then show "\<not> clip_fails fp cd (i + k) ((sent # rest) ! k)"
        using False before by (cases k) auto
    qed
    ultimately show ?thesis by blast
  qed
qed

lemma length_entries_from: "length (entries_from fp i sents) = length sents"
  by (induction sents arbitrary: i) simp_all

lemma length_events_from: "length (events_from fp i sents) = length sents"
  by (induction sents arbitrary: i) simp_all

lemma entries_from_nth:
  "k < length sents \<Longrightarrow> entries_from fp i sents ! k = clip_entry fp (i + k) (sents ! k)"
proof (induction sents arbitrary: i k)
  case Nil
  then show ?case by simp
next
  case (Cons sent rest)
  then show ?case by (cases k) simp_all
qed

lemma events_from_nth:
  "k < length sents \<Longrightarrow> events_from fp i sents ! k = clip_event fp (i + k) (sents ! k)"
proof (induction sents arbitrary: i k)
  case Nil
  then show ?case by simp
next
  case (Cons sent rest)
  then show ?case by (cases k) simp_all
qed

lemma events_from_clip: "ev \<in> set (events_from fp i sents) \<Longrightarrow> is_clip ev \<and> \<not> is_json ev"
  by (induction sents arbitrary: i) (auto simp: clip_event_def is_clip_def is_json_def)

lemma digit_char_code: "d < 10 \<Longrightarrow> of_char (digit_char d) = 48 + d"
proof -
  assume "d < 10"
  then have "d \<in> {0, 1, 2, 3, 4, 5, 6, 7, 8, 9}" by auto
  then show ?thesis by (auto simp: digit_char_def)
qed

lemma digit_char_less:
  "a < 10 \<Longrightarrow> b < 10 \<Longrightarrow> digit_char a < digit_char b \<longleftrightarrow> a < b"
  by (simp add: less_char_def digit_char_code)

lemma digit_char_inj:
  "a < 10 \<Longrightarrow> b < 10 \<Longrightarrow> digit_char a = digit_char b \<longleftrightarrow> a = b"
proof
  assume a: "a < 10" and b: "b < 10" and "digit_char a = digit_char b"
  then have "(of_char (digit_char a) :: nat) = of_char (digit_char b)" by simp
  with a b show "a = b" by (simp add: digit_char_code)
qed simp

lemma dec_value_snoc: "dec_value (s @ [c]) = 10 * dec_value s + (of_char c - 48)"
  by (simp add: dec_value_def)

lemma dec_value_dec_digits: "dec_value (dec_digits n) = n"
proof (induction n rule: dec_digits.induct)
  case (1 n)
  show ?case
  proof (cases "n < 10")
    case True
    then show ?thesis
      by (subst dec_digits.simps) (simp add: dec_value_def digit_char_code)
  next
    case False
    have "n mod 10 < 10" by simp
    then have d: "(of_char (digit_char (n mod 10)) :: nat) - 48 = n mod 10"
      by (simp add: digit_char_code)
    from False "1.IH" have "dec_value (dec_digits (n div 10)) = n div 10" by simp
    with False d show ?thesis
      by (subst dec_digits.simps) (simp add: dec_value_snoc)
  qed
qed

lemma dec_value_pad: "dec_value (replicate k (CHR ''0'') @ s) = dec_value s"
proof -
  have "foldl (\<lambda>a c. 10 * a + (of_char c - 48)) 0 (replicate k (CHR ''0'')) = (0::nat)"
    by (induction k) simp_all
  then show ?thesis by (simp add: dec_value_def)
qed

lemma dec_value_fmt_03: "dec_value (fmt_03 i) = i"
  by (simp add: fmt_03_def Let_def dec_value_pad dec_value_dec_digits)

lemma segment_filename_inj: "segment_filename i = segment_filename j \<Longrightarrow> i = j"
proof -
  assume "segment_filename i = segment_filename j"
  then have "fmt_03 i = fmt_03 j" by (simp add: segment_filename_def)
  then have "dec_value (fmt_03 i) = dec_value (fmt_03 j)" by simp
  then show "i = j" by (simp add: dec_value_fmt_03)
qed

lemma replicate_two: "replicate 2 x = [x, x]"
  by (simp add: numeral_2_eq_2)

lemma dec_digits_small: "n < 10 \<Longrightarrow> dec_digits n = [digit_char n]"
  using dec_digits.simps[of n] by simp

lemma dec_digits_large:
  "\<not> n < 10 \<Longrightarrow> dec_digits n = dec_digits (n div 10) @ [digit_char (n mod 10)]"
  using dec_digits.simps[of n] by simp

lemma fmt_03_small:
  "i < 1000 \<Longrightarrow>
   fmt_03 i = [digit_char (i div 100), digit_char (i div 10 mod 10), digit_char (i mod 10)]"
proof -
  assume i: "i < 1000"
  have z: "digit_char 0 = CHR ''0''" by (simp add: digit_char_def)
  consider "i < 10" | "10 \<le> i" "i < 100" | "100 \<le> i" by linarith
  then show ?thesis
  proof cases
    case 1
    then have "dec_digits i = [digit_char i]" by (rule dec_digits_small)
    moreover from 1 have "i div 100 = 0" and "i div 10 mod 10 = 0" and "i mod 10 = i" by simp_all
    ultimately show ?thesis using z by (simp add: fmt_03_def Let_def replicate_two)
  next
    case 2
    then have a: "i div 10 < 10" and n: "\<not> i < 10" by simp_all
    have "dec_digits i = [digit_char (i div 10), digit_char (i mod 10)]"
      by (simp add: dec_digits_large[OF n] dec_digits_small[OF a])
    moreover from 2 have "i div 100 = 0" and "i div 10 mod 10 = i div 10" by simp_all
    ultimately show ?thesis using z by (simp add: fmt_03_def Let_def)
  next
    case 3
    with i have n: "\<not> i < 10" and a: "\<not> i div 10 < 10" and b: "i div 10 div 10 < 10" by simp_all
    have e: "i div 10 div 10 = i div 100" by (simp add: div_mult2_eq)
    from b e have b': "i div 100 < 10" by simp
    have "dec_digits (i div 10) = dec_digits (i div 100) @ [digit_char (i div 10 mod 10)]"
      using dec_digits_large[OF a] e by simp
    then have "dec_digits i = [digit_char (i div 100), digit_char (i div 10 mod 10), digit_char (i mod 10)]"
      by (simp add: dec_digits_large[OF n] dec_digits_small[OF b'])
    then show ?thesis by (simp add: fmt_03_def Let_def)
  qed
qed

lemma three_digits: "(i::nat) = 100 * (i div 100) + 10 * (i div 10 mod 10) + i mod 10"
proof -
  have "i div 10 div 10 = i div 100" by (simp add: div_mult2_eq)
  moreover have "i = 10 * (i div 10) + i mod 10" by simp
  moreover have "i div 10 = 10 * (i div 10 div 10) + i div 10 mod 10" by simp
  ultimately show ?thesis by linarith
qed

lemma fmt_03_less:
  assumes "i < j" and "j < 1000"
  shows "fmt_03 i < fmt_03 j"
proof -
  from assms have i: "i < 1000" by simp
  define a b c where "a = i div 100" and "b = i div 10 mod 10" and "c = i mod 10"
  define a' b' c' where "a' = j div 100" and "b' = j div 10 mod 10" and "c' = j mod 10"
  have ie: "i = 100 * a + 10 * b + c" unfolding a_def b_def c_def by (rule three_digits)
  have je: "j = 100 * a' + 10 * b' + c'" unfolding a'_def b'_def c'_def by (rule three_digits)
  have bd: "b < 10" "c < 10" "b' < 10" "c' < 10"
    by (simp_all add: b_def c_def b'_def c'_def)
  have ad: "a < 10" "a' < 10" using i assms(2) by (simp_all add: a_def a'_def)
  have lex: "a < a' \<or> (a = a' \<and> (b < b' \<or> (b = b' \<and> c < c')))"
    using assms(1) ie je bd by linarith
  have fi: "fmt_03 i = [digit_char a, digit_char b, digit_char c]"
    unfolding a_def b_def c_def by (rule fmt_03_small[OF i])
  have fj: "fmt_03 j = [digit_char a', digit_char b', digit_char c']"
    unfolding a'_def b'_def c'_def by (rule fmt_03_small[OF assms(2)])
  from lex show ?thesis
    unfolding fi fj using ad bd by (auto simp: digit_char_less digit_char_inj)
qed

lemma prefix_less: "(p @ x < p @ y) = (x < (y :: string))"
  by (induction p) simp_all

lemma suffix_less: "length x = length y \<Longrightarrow> x < y \<Longrightarrow> x @ s < y @ (s :: string)"
  by (induction x y rule: list_induct2) auto

lemma segment_filename_less:
  assumes "i < j" and "j < 1000"
  shows "''segments/'' @ segment_filename i < ''segments/'' @ segment_filename j"
proof -
  from assms have i: "i < 1000" by simp
  have "length (fmt_03 i) = length (fmt_03 j)"
    by (simp add: fmt_03_small[OF i] fmt_03_small[OF assms(2)])
  then have "fmt_03 i @ ''.mp3'' < fmt_03 j @ ''.mp3''"
    using fmt_03_less[OF assms] by (rule suffix_less)
  then have "''segment_'' @ fmt_03 i @ ''.mp3'' < ''segment_'' @ fmt_03 j @ ''.mp3''"
    by (simp only: prefix_less)
  then show ?thesis
    by (simp only: prefix_less segment_filename_def)
qed

lemma export_loop_events:
  "\<exists>n\<le>length sents.
     (\<forall>k<n. \<not> clip_fails fp cd (i + k) (sents ! k)) \<and>
     snd (export_loop fp cd i sents results fs) = fs @ events_from fp i (take n sents)"
proof (cases "\<exists>k<length sents. clip_fails fp cd (i + k) (sents ! k)")
  case True
  from export_loop_fail[OF True, of results fs] obtain e n where "n < length sents"
    and "\<forall>k<n. \<not> clip_fails fp cd (i + k) (sents ! k)"
    and "export_loop fp cd i sents results fs = (Inl e, fs @ events_from fp i (take n sents))"
    by blast
  then show ?thesis
    by (intro exI[of _ n]) simp
next
  case False
  then have ok: "\<forall>k<length sents. \<not> clip_fails fp cd (i + k) (sents ! k)" by blast
  from export_loop_ok[OF this, of results fs] ok show ?thesis
    by (intro exI[of _ "length sents"]) simp
qed

lemma export_loop_manifest:
  assumes "fst (export_loop fp cd i sents results fs) = Inr m"
  shows "m = results @ entries_from fp i sents"
proof (cases "\<exists>k<length sents. clip_fails fp cd (i + k) (sents ! k)")
  case True
  from export_loop_fail[OF True, of results fs] assms show ?thesis by auto
next
  case False
  then have "\<forall>k<length sents. \<not> clip_fails fp cd (i + k) (sents ! k)" by blast
  from export_loop_ok[OF this, of results fs] assms show ?thesis by simp
qed

lemma py_trunc_toward_zero:
  "\<bar>of_int (py_trunc x)\<bar> \<le> \<bar>x\<bar> \<and> \<bar>x - of_int (py_trunc x)\<bar> < 1"
  unfolding py_trunc_def by (cases "0 \<le> x") (simp_all, linarith+)

lemma clip_bounds_finite:
  assumes "fmul fp (start_time sent) 1000 = Finite x"
    and "fmul fp (end_time sent) 1000 = Finite y"
  shows "clip_bounds fp sent
           = Inr (max (py_trunc x) 0, max (py_trunc y) (max (py_trunc x) 0 + 1))"
  using assms by (simp add: clip_bounds_def py_int_def Let_def)

lemma clip_bounds_raises:
  "(\<exists>e. clip_bounds fp sent = Inl e) \<longleftrightarrow>
     (\<forall>x. fmul fp (start_time sent) 1000 \<noteq> Finite x) \<or>
     (\<forall>y. fmul fp (end_time sent) 1000 \<noteq> Finite y)"
  by (cases "fmul fp (start_time sent) 1000"; cases "fmul fp (end_time sent) 1000")
     (simp_all add: clip_bounds_def py_int_def Let_def)

lemma exported_clips:
  "\<exists>n\<le>length sents.
     length (snd (export_clips fp cd sents [])) = n \<and>
     (\<forall>k<n. \<exists>a b. clip_bounds fp (sents ! k) = Inr (a, b) \<and>
        snd (export_clips fp cd sents []) ! k
          = ClipWritten (''segments/'' @ segment_filename (Suc k)) a b \<and>
        0 \<le> a \<and> a + 1 \<le> b)"
proof -
  from export_loop_events[of sents fp cd 1 "[]" "[]"] obtain n where n: "n \<le> length sents"
    and ok: "\<forall>k<n. \<not> clip_fails fp cd (1 + k) (sents ! k)"
    and ev: "snd (export_clips fp cd sents []) = events_from fp 1 (take n sents)"
    by (auto simp: export_clips_def)
  have len: "length (snd (export_clips fp cd sents [])) = n"
    using n by (simp add: ev length_events_from)
  have "\<forall>k<n. \<exists>a b. clip_bounds fp (sents ! k) = Inr (a, b) \<and>
        snd (export_clips fp cd sents []) ! k
          = ClipWritten (''segments/'' @ segment_filename (Suc k)) a b \<and>
        0 \<le> a \<and> a + 1 \<le> b"
  proof (intro allI impI)
    fix k assume k: "k < n"
    with ok have "\<not> clip_fails fp cd (Suc k) (sents ! k)" by simp
    from clip_not_fails[OF this] obtain a b where b: "clip_bounds fp (sents ! k) = Inr (a, b)"
      and e: "clip_event fp (Suc k) (sents ! k)
                = ClipWritten (''segments/'' @ segment_filename (Suc k)) a b"
      by blast
    from k n have "snd (export_clips fp cd sents []) ! k = clip_event fp (Suc k) (sents ! k)"
      by (simp add: ev events_from_nth)
    with b e clip_bounds_range[OF b] show "\<exists>a b. clip_bounds fp (sents ! k) = Inr (a, b) \<and>
        snd (export_clips fp cd sents []) ! k
          = ClipWritten (''segments/'' @ segment_filename (Suc k)) a b \<and>
        0 \<le> a \<and> a + 1 \<le> b"
      by simp
  qed
  with n len show ?thesis by blast
qed

lemma entries_path:
  "k < length sents \<Longrightarrow> path (entries_from fp i sents ! k) = ''segments/'' @ segment_filename (i + k)"
  by (simp add: entries_from_nth clip_entry_def)

lemma entries_text:
  "k < length sents \<Longrightarrow> c_text (entries_from fp i sents ! k) = s_text (sents ! k)"
  by (simp add: entries_from_nth clip_entry_def)

lemma entries_distinct: "distinct (map path (entries_from fp i sents))"
proof -
  have "\<forall>a<length sents. \<forall>b<length sents. a \<noteq> b \<longrightarrow>
          path (entries_from fp i sents ! a) \<noteq> path (entries_from fp i sents ! b)"
  proof (intro allI impI)
    fix a b assume a: "a < length sents" and b: "b < length sents" and ab: "a \<noteq> b"
    show "path (entries_from fp i sents ! a) \<noteq> path (entries_from fp i sents ! b)"
    proof
      assume "path (entries_from fp i sents ! a) = path (entries_from fp i sents ! b)"
      with a b have "segment_filename (i + a) = segment_filename (i + b)"
        by (simp add: entries_path)
      then have "i + a = i + b" by (rule segment_filename_inj)
      with ab show False by simp
    qed
  qed
  then show ?thesis
    by (simp add: distinct_conv_nth length_entries_from)
qed

lemma entries_sorted:
  assumes "i + length sents \<le> 1000"
  shows "sorted_wrt (<) (map path (entries_from fp i sents))"
proof -
  have "\<forall>a b. a < b \<longrightarrow> b < length sents \<longrightarrow>
          path (entries_from fp i sents ! a) < path (entries_from fp i sents ! b)"
  proof (intro allI impI)
    fix a b assume ab: "a < b" and b: "b < length sents"
    then have a: "a < length sents" by simp
    from ab have "i + a < i + b" by simp
    moreover from b assms have "i + b < 1000" by simp
    ultimately have "''segments/'' @ segment_filename (i + a) < ''segments/'' @ segment_filename (i + b)"
      by (rule segment_filename_less)
    with a b show "path (entries_from fp i sents ! a) < path (entries_from fp i sents ! b)"
      by (simp only: entries_path)
  qed
  then show ?thesis
    by (simp add: sorted_wrt_iff_nth_less length_entries_from)
qed

lemma segment_filename_width: "i < 1000 \<Longrightarrow> length (segment_filename i) = 15"
  by (simp add: segment_filename_def fmt_03_small)

lemma manifest_paths_ok:
  "manifest_paths exact_ops codec_ok sents = map path (entries_from exact_ops 1 sents)"
proof -
  have "\<forall>k<length sents. \<not> clip_fails exact_ops codec_ok (1 + k) (sents ! k)"
    by (simp add: clip_fails_def codec_ok_def clip_bounds_def py_int_def exact_ops_def Let_def)
  from export_loop_ok[OF this, of "[]" "[]"] show ?thesis
    by (simp add: manifest_paths_def export_clips_def)
qed

lemma manifest_paths_ok_nth:
  "k < length sents \<Longrightarrow> manifest_paths exact_ops codec_ok sents ! k = ''segments/'' @ segment_filename (Suc k)"
  by (simp add: manifest_paths_ok length_entries_from entries_path)

lemmas export_eval =
  export_clips_def main_export_def clip_bounds_def py_int_def py_trunc_def exact_ops_def
  segment_filename_def fmt_03_def dec_digits_small digit_char_def replicate_two Let_def

section \<open>Properties of the clip exporter\<close>

text \<open>Claim C5, as amended: where the float products \<open>start_time * 1000\<close> and
  \<open>end_time * 1000\<close> are finite, the bounds are \<open>start_ms = max (int (start_time * 1000)) 0\<close>
  and \<open>end_ms = max (int (end_time * 1000)) (start_ms + 1)\<close>, where \<^verbatim>\<open>int\<close> truncates toward
  zero (it does not round to the nearest millisecond); \<^verbatim>\<open>int\<close> raises exactly when a product
  is not finite. Bounds that are computed satisfy \<open>0 \<le> start_ms\<close> and
  \<open>end_ms \<ge> start_ms + 1\<close>, and the clip that the exporter writes for the sentence of index
  \<open>k\<close> has the path of ordinal \<open>k + 1\<close> and exactly the bounds of that sentence: its range is
  never empty.\<close>

theorem clip_bounds_nonempty:
  "(fmul fp (start_time sent) 1000 = Finite x \<and> fmul fp (end_time sent) 1000 = Finite y \<longrightarrow>
      clip_bounds fp sent
        = Inr (max (py_trunc x) 0, max (py_trunc y) (max (py_trunc x) 0 + 1)) \<and>
      \<bar>of_int (py_trunc x)\<bar> \<le> \<bar>x\<bar> \<and> \<bar>x - of_int (py_trunc x)\<bar> < 1 \<and>
      \<bar>of_int (py_trunc y)\<bar> \<le> \<bar>y\<bar> \<and> \<bar>y - of_int (py_trunc y)\<bar> < 1) \<and>
   ((\<exists>e. clip_bounds fp sent = Inl e) \<longleftrightarrow>
      (\<forall>x. fmul fp (start_time sent) 1000 \<noteq> Finite x) \<or>
      (\<forall>y. fmul fp (end_time sent) 1000 \<noteq> Finite y)) \<and>
   (clip_bounds fp sent = Inr (a, b) \<longrightarrow> 0 \<le> a \<and> a + 1 \<le> b) \<and>
   (\<exists>n\<le>length sents.
      length (snd (export_clips fp cd sents [])) = n \<and>
      (\<forall>k<n. \<exists>a b. clip_bounds fp (sents ! k) = Inr (a, b) \<and>
         snd (export_clips fp cd sents []) ! k
           = ClipWritten (''segments/'' @ segment_filename (Suc k)) a b \<and>
         0 \<le> a \<and> a + 1 \<le> b))"
proof (intro conjI impI)
  assume f: "fmul fp (start_time sent) 1000 = Finite x \<and> fmul fp (end_time sent) 1000 = Finite y"
  then show "clip_bounds fp sent
        = Inr (max (py_trunc x) 0, max (py_trunc y) (max (py_trunc x) 0 + 1))"
    by (simp add: clip_bounds_finite)
  show "\<bar>of_int (py_trunc x)\<bar> \<le> \<bar>x\<bar>" and "\<bar>x - of_int (py_trunc x)\<bar> < 1"
    using py_trunc_toward_zero[of x] by simp_all
  show "\<bar>of_int (py_trunc y)\<bar> \<le> \<bar>y\<bar>" and "\<bar>y - of_int (py_trunc y)\<bar> < 1"
    using py_trunc_toward_zero[of y] by simp_all
next
  show "(\<exists>e. clip_bounds fp sent = Inl e) \<longleftrightarrow>
      (\<forall>x. fmul fp (start_time sent) 1000 \<noteq> Finite x) \<or>
      (\<forall>y. fmul fp (end_time sent) 1000 \<noteq> Finite y)"
    by (rule clip_bounds_raises)
next
  assume "clip_bounds fp sent = Inr (a, b)"
  then show "0 \<le> a" and "a + 1 \<le> b"
    using clip_bounds_range by blast+
next
  show "\<exists>n\<le>length sents.
      length (snd (export_clips fp cd sents [])) = n \<and>
      (\<forall>k<n. \<exists>a b. clip_bounds fp (sents ! k) = Inr (a, b) \<and>
         snd (export_clips fp cd sents []) ! k
           = ClipWritten (''segments/'' @ segment_filename (Suc k)) a b \<and>
         0 \<le> a \<and> a + 1 \<le> b)"
    by (rule exported_clips)
qed

text \<open>An instance: a sentence of duration zero at half a second gets the range 500 to 501.\<close>

theorem clip_bounds_nonempty_witness:
  "fmul exact_ops (start_time \<lparr>s_text = [97], start_time = 1 / 2, end_time = 1 / 2\<rparr>) 1000 = Finite 500 \<and>
   fmul exact_ops (end_time \<lparr>s_text = [97], start_time = 1 / 2, end_time = 1 / 2\<rparr>) 1000 = Finite 500 \<and>
   clip_bounds exact_ops \<lparr>s_text = [97], start_time = 1 / 2, end_time = 1 / 2\<rparr>
     = Inr (max (py_trunc 500) 0, max (py_trunc 500) (max (py_trunc 500) 0 + 1)) \<and>
   clip_bounds exact_ops \<lparr>s_text = [97], start_time = 1 / 2, end_time = 1 / 2\<rparr> = Inr (500, 501) \<and>
   snd (export_clips exact_ops codec_ok [\<lparr>s_text = [97], start_time = 1 / 2, end_time = 1 / 2\<rparr>] [])
     = [ClipWritten ''segments/segment_001.mp3'' 500 501]"
proof -
  have h: "fmul exact_ops (start_time \<lparr>s_text = [97], start_time = 1 / 2, end_time = 1 / 2\<rparr>) 1000 = Finite 500 \<and>
           fmul exact_ops (end_time \<lparr>s_text = [97], start_time = 1 / 2, end_time = 1 / 2\<rparr>) 1000 = Finite 500"
    by (simp add: exact_ops_def)
  from clip_bounds_nonempty
    [where fp = exact_ops and sent = "\<lparr>s_text = [97], start_time = 1 / 2, end_time = 1 / 2\<rparr>" and x = 500 and y = 500
       and a = 500 and b = 501 and cd = codec_ok and sents = "[\<lparr>s_text = [97], start_time = 1 / 2, end_time = 1 / 2\<rparr>]"] h
  have a: "clip_bounds exact_ops \<lparr>s_text = [97], start_time = 1 / 2, end_time = 1 / 2\<rparr>
     = Inr (max (py_trunc 500) 0, max (py_trunc 500) (max (py_trunc 500) 0 + 1))"
    by blast
  then have b: "clip_bounds exact_ops \<lparr>s_text = [97], start_time = 1 / 2, end_time = 1 / 2\<rparr> = Inr (500, 501)"
    by (simp add: py_trunc_def)
  have c: "snd (export_clips exact_ops codec_ok [\<lparr>s_text = [97], start_time = 1 / 2, end_time = 1 / 2\<rparr>] [])
     = [ClipWritten ''segments/segment_001.mp3'' 500 501]"
    by (simp add: export_clips_def codec_ok_def b segment_filename_def fmt_03_def
        dec_digits_small digit_char_def replicate_two Let_def)
  from h a b c show ?thesis by blast
qed

text \<open>A start time of 3/4096 seconds is 0.732421875 milliseconds, a product that is a float:
  the code truncates it to 0, rounding gives 1.\<close>

theorem clip_bounds_counterexample:
  "clip_bounds exact_ops \<lparr>s_text = [97], start_time = 3 / 4096, end_time = 1\<rparr> = Inr (0, 1000) \<and>
   spec_clip_bounds exact_ops \<lparr>s_text = [97], start_time = 3 / 4096, end_time = 1\<rparr> = Inr (1, 1000) \<and>
   clip_bounds exact_ops \<lparr>s_text = [97], start_time = 3 / 4096, end_time = 1\<rparr> \<noteq> spec_clip_bounds exact_ops \<lparr>s_text = [97], start_time = 3 / 4096, end_time = 1\<rparr>"
  by (simp add: clip_bounds_def spec_clip_bounds_def py_int_def py_trunc_def py_round_def
      py_round_real_def exact_ops_def Let_def)

text \<open>Claim C6, as amended: after a successful export the manifest has one entry per sentence,
  the entry at index \<open>k\<close> carries the text of sentence \<open>k\<close> and the path built from the
  ordinal \<open>k + 1\<close>, and the paths are pairwise distinct. The format pads to at least three
  digits: for at most 999 sentences every file name has the same width and the paths increase
  strictly in lexicographic order.\<close>

theorem manifest_correspondence:
  assumes "fst (export_clips fp cd sents fs) = Inr manifest"
  shows "length manifest = length sents \<and>
    (\<forall>k<length sents.
       path (manifest ! k) = ''segments/'' @ segment_filename (Suc k) \<and>
       c_text (manifest ! k) = s_text (sents ! k)) \<and>
    distinct (map path manifest) \<and>
    (length sents \<le> 999 \<longrightarrow>
       (\<forall>k<length sents. length (segment_filename (Suc k)) = 15) \<and>
       sorted_wrt (<) (map path manifest))"
proof -
  from assms have m: "manifest = entries_from fp 1 sents"
    using export_loop_manifest[of fp cd 1 sents "[]" fs manifest] by (simp add: export_clips_def)
  have "length sents \<le> 999 \<longrightarrow> sorted_wrt (<) (map path manifest)"
    unfolding m by (auto intro: entries_sorted)
  moreover have "length sents \<le> 999 \<longrightarrow> (\<forall>k<length sents. length (segment_filename (Suc k)) = 15)"
    by (auto intro: segment_filename_width)
  moreover have "\<forall>k<length sents.
       path (manifest ! k) = ''segments/'' @ segment_filename (Suc k) \<and>
       c_text (manifest ! k) = s_text (sents ! k)"
    unfolding m by (simp add: entries_path entries_text)
  ultimately show ?thesis
    unfolding m by (simp add: length_entries_from entries_distinct)
qed

text \<open>An instance with two sentences.\<close>

theorem manifest_correspondence_witness:
  "fst (export_clips exact_ops codec_ok [\<lparr>s_text = [72, 105, 46], start_time = 0, end_time = 1\<rparr>,
                               \<lparr>s_text = [97], start_time = 3, end_time = 4\<rparr>] [])
     = Inr [\<lparr>c_text = [72, 105, 46], c_start_time = 0, c_end_time = 1,
              path = ''segments/segment_001.mp3''\<rparr>,
            \<lparr>c_text = [97], c_start_time = 3, c_end_time = 4,
              path = ''segments/segment_002.mp3''\<rparr>] \<and>
   distinct [''segments/segment_001.mp3'', ''segments/segment_002.mp3''] \<and>
   sorted_wrt (<) [''segments/segment_001.mp3'', ''segments/segment_002.mp3'']"
proof -
  have h: "fst (export_clips exact_ops codec_ok [\<lparr>s_text = [72, 105, 46], start_time = 0, end_time = 1\<rparr>,
                               \<lparr>s_text = [97], start_time = 3, end_time = 4\<rparr>] [])
     = Inr [\<lparr>c_text = [72, 105, 46], c_start_time = 0, c_end_time = 1,
              path = ''segments/segment_001.mp3''\<rparr>,
            \<lparr>c_text = [97], c_start_time = 3, c_end_time = 4,
              path = ''segments/segment_002.mp3''\<rparr>]"
    by (simp add: export_eval codec_ok_def)
  from manifest_correspondence[OF h] h show ?thesis
    by simp
qed

text \<open>With a thousand sentences the export succeeds and the last name has four digits:
  \<open>segment_999.mp3\<close> is not below \<open>segment_1000.mp3\<close> in lexicographic order.\<close>

theorem manifest_correspondence_counterexample:
  "length (manifest_paths exact_ops codec_ok (replicate 1000 \<lparr>s_text = [97], start_time = 0, end_time = 1\<rparr>))
     = 1000 \<and>
   manifest_paths exact_ops codec_ok (replicate 1000 \<lparr>s_text = [97], start_time = 0, end_time = 1\<rparr>) ! 998
     = ''segments/segment_999.mp3'' \<and>
   manifest_paths exact_ops codec_ok (replicate 1000 \<lparr>s_text = [97], start_time = 0, end_time = 1\<rparr>) ! 999
     = ''segments/segment_1000.mp3'' \<and>
   \<not> manifest_paths exact_ops codec_ok (replicate 1000 \<lparr>s_text = [97], start_time = 0, end_time = 1\<rparr>) ! 998
     < manifest_paths exact_ops codec_ok (replicate 1000 \<lparr>s_text = [97], start_time = 0, end_time = 1\<rparr>) ! 999"
proof -
  have a: "segment_filename 999 = ''segment_999.mp3''"
    by (simp add: segment_filename_def fmt_03_def dec_digits.simps digit_char_def)
  have b: "segment_filename 1000 = ''segment_1000.mp3''"
    by (simp add: segment_filename_def fmt_03_def dec_digits.simps digit_char_def)
  show ?thesis
    by (simp add: manifest_paths_ok_nth a b) (simp add: manifest_paths_ok length_entries_from)
qed

text \<open>Claim C7. If the clip of some sentence fails (the audio library fails on it, or \<^verbatim>\<open>int\<close>
  raises on one of its bounds), the run ends with that error and no manifest is written,
  whatever was on disk before; otherwise the run succeeds and has written one clip per
  sentence, then the manifest exactly once, then the subtitles when asked.\<close>

theorem export_all_or_nothing:
  "\<exists>new. snd (main_export fp cd sents srt fs) = fs @ new \<and>
     ((\<exists>k<length sents. clip_fails fp cd (Suc k) (sents ! k)) \<longrightarrow>
        (\<exists>e. fst (main_export fp cd sents srt fs) = Inl e) \<and> (\<forall>ev\<in>set new. \<not> is_json ev)) \<and>
     ((\<forall>k<length sents. \<not> clip_fails fp cd (Suc k) (sents ! k)) \<longrightarrow>
        fst (main_export fp cd sents srt fs) = Inr () \<and>
        new = events_from fp 1 sents @ [JsonWritten (entries_from fp 1 sents)]
                @ (if srt then [SrtWritten (entries_from fp 1 sents)] else []) \<and>
        length (filter is_json new) = 1 \<and>
        length (filter is_clip new) = length sents)"
proof (cases "\<exists>k<length sents. clip_fails fp cd (Suc k) (sents ! k)")
  case True
  then have "\<exists>k<length sents. clip_fails fp cd (1 + k) (sents ! k)" by simp
  from export_loop_fail[OF this, of "[]" fs] obtain e n where
    run: "export_loop fp cd 1 sents [] fs = (Inl e, fs @ events_from fp 1 (take n sents))"
    by blast
  have "\<forall>ev\<in>set (events_from fp 1 (take n sents)). \<not> is_json ev"
    using events_from_clip by blast
  with run True show ?thesis
    by (intro exI[of _ "events_from fp 1 (take n sents)"]) (simp add: main_export_def export_clips_def)
next
  case False
  then have ok: "\<forall>k<length sents. \<not> clip_fails fp cd (1 + k) (sents ! k)" by simp
  have run: "export_loop fp cd 1 sents [] fs = (Inr (entries_from fp 1 sents), fs @ events_from fp 1 sents)"
    using export_loop_ok[OF ok, of "[]" fs] by simp
  have f1: "\<And>i. filter is_json (events_from fp i sents) = []"
    using events_from_clip by (auto simp: filter_empty_conv)
  have f2: "\<And>i. filter is_clip (events_from fp i sents) = events_from fp i sents"
    using events_from_clip by (auto simp: filter_id_conv)
  from run False show ?thesis
    by (intro exI[of _ "events_from fp 1 sents @ [JsonWritten (entries_from fp 1 sents)]
                @ (if srt then [SrtWritten (entries_from fp 1 sents)] else [])"])
       (simp add: main_export_def export_clips_def Let_def f1 f2 is_json_def is_clip_def
          length_events_from)
qed

text \<open>Two instances: a library that fails on the second clip, and one that does not fail.\<close>

theorem export_all_or_nothing_witness:
  "(\<exists>k<length [\<lparr>s_text = [72, 105, 46], start_time = 0, end_time = 1\<rparr>,
                  \<lparr>s_text = [97], start_time = 3, end_time = 4\<rparr>].
      clip_fails exact_ops (codec_fail_at ''segments/segment_002.mp3'') (Suc k)
        ([\<lparr>s_text = [72, 105, 46], start_time = 0, end_time = 1\<rparr>,
          \<lparr>s_text = [97], start_time = 3, end_time = 4\<rparr>] ! k)) \<and>
   (\<exists>e. fst (main_export exact_ops (codec_fail_at ''segments/segment_002.mp3'')
            [\<lparr>s_text = [72, 105, 46], start_time = 0, end_time = 1\<rparr>,
             \<lparr>s_text = [97], start_time = 3, end_time = 4\<rparr>] True []) = Inl e) \<and>
   snd (main_export exact_ops (codec_fail_at ''segments/segment_002.mp3'')
            [\<lparr>s_text = [72, 105, 46], start_time = 0, end_time = 1\<rparr>,
             \<lparr>s_text = [97], start_time = 3, end_time = 4\<rparr>] True [])
     = [ClipWritten ''segments/segment_001.mp3'' 0 1000] \<and>
   \<not> clip_fails exact_ops codec_ok (Suc 0) ([\<lparr>s_text = [97], start_time = 3, end_time = 4\<rparr>] ! 0) \<and>
   fst (main_export exact_ops codec_ok [\<lparr>s_text = [97], start_time = 3, end_time = 4\<rparr>] False []) = Inr () \<and>
   snd (main_export exact_ops codec_ok [\<lparr>s_text = [97], start_time = 3, end_time = 4\<rparr>] False [])
     = [ClipWritten ''segments/segment_001.mp3'' 3000 4000,
        JsonWritten [\<lparr>c_text = [97], c_start_time = 3, c_end_time = 4,
                       path = ''segments/segment_001.mp3''\<rparr>]]"
proof -
  let ?S = "[\<lparr>s_text = [72, 105, 46], start_time = 0, end_time = 1\<rparr>,
             \<lparr>s_text = [97], start_time = 3, end_time = 4\<rparr>]"
  let ?T = "[\<lparr>s_text = [97], start_time = 3, end_time = 4\<rparr>]"
  have "clip_fails exact_ops (codec_fail_at ''segments/segment_002.mp3'') (Suc 1) (?S ! 1)"
    by (simp add: clip_fails_def codec_fail_at_def export_eval)
  then have h1: "\<exists>k<length ?S. clip_fails exact_ops (codec_fail_at ''segments/segment_002.mp3'') (Suc k) (?S ! k)"
    by (intro exI[of _ 1]) simp
  have h2: "\<forall>k<length ?T. \<not> clip_fails exact_ops codec_ok (Suc k) (?T ! k)"
    by (simp add: clip_fails_def codec_ok_def export_eval)
  from export_all_or_nothing[of exact_ops "codec_fail_at ''segments/segment_002.mp3''" ?S True "[]"] h1
  have a: "\<exists>e. fst (main_export exact_ops (codec_fail_at ''segments/segment_002.mp3'') ?S True []) = Inl e"
    by blast
  from export_all_or_nothing[of exact_ops codec_ok ?T False "[]"] h2
  have b: "fst (main_export exact_ops codec_ok ?T False []) = Inr ()"
    by blast
  have c: "snd (main_export exact_ops (codec_fail_at ''segments/segment_002.mp3'') ?S True [])
     = [ClipWritten ''segments/segment_001.mp3'' 0 1000]"
    by (simp add: codec_fail_at_def export_eval)
  have d: "snd (main_export exact_ops codec_ok ?T False [])
     = [ClipWritten ''segments/segment_001.mp3'' 3000 4000,
        JsonWritten [\<lparr>c_text = [97], c_start_time = 3, c_end_time = 4,
                       path = ''segments/segment_001.mp3''\<rparr>]]"
    by (simp add: codec_ok_def export_eval)
  have h3: "\<not> clip_fails exact_ops codec_ok (Suc 0) (?T ! 0)"
    by (simp add: clip_fails_def codec_ok_def export_eval)
  from h1 h3 a b c d show ?thesis by blast
qed


section \<open>The two copies of the segmentation core\<close>

lemma nf_constants:
  "SENTENCE_END_CHARS_nf = SENTENCE_END_CHARS"
  "should_close_sentence_nf = should_close_sentence"
  "normalize_spacing_nf = normalize_spacing"
  "emit_sentence_nf = emit_sentence"
proof -
  show a: "SENTENCE_END_CHARS_nf = SENTENCE_END_CHARS"
    by (simp add: SENTENCE_END_CHARS_nf_def SENTENCE_END_CHARS_def)
  show "should_close_sentence_nf = should_close_sentence"
    by (intro ext) (simp add: should_close_sentence_nf_def should_close_sentence_def a)
  show b: "normalize_spacing_nf = normalize_spacing"
    by (intro ext) (simp add: normalize_spacing_nf_def normalize_spacing_def)
  show "emit_sentence_nf = emit_sentence"
    unfolding emit_sentence_nf_def[abs_def] emit_sentence_def[abs_def] b by (rule refl)
qed

lemma seg_loop_nf_step:
  "seg_loop_nf fp g m (w # rest) (a, ss) =
     seg_loop_nf fp g m rest
       (if closes fp (a @ [w]) w rest g m
        then ([], ss @ map sentence_of_group (filter group_emits [a @ [w]]))
        else (a @ [w], ss))"
proof -
  have ne: "a @ [w] \<noteq> []" by simp
  show ?thesis
    unfolding seg_loop_nf.simps nf_constants Let_def need_close_closes emit_sentence_nonempty[OF ne]
    by simp
qed

lemma seg_loop_nf_trace:
  "seg_loop_nf fp g m rest (a, ss) =
     Inr (open_acc a (trace_of fp g m a rest),
          ss @ map sentence_of_group (filter group_emits (map fst (filter snd (trace_of fp g m a rest)))))"
proof (induction rest arbitrary: a ss)
  case Nil
  show ?case by (simp add: open_acc_def)
next
  case (Cons w rest)
  show ?case
    unfolding seg_loop_nf_step
    by (simp add: Cons.IH open_acc_Cons)
qed

text \<open>Claim C10. The functions \<^verbatim>\<open>words_to_sentences\<close>, \<^verbatim>\<open>should_close_sentence\<close> and
  \<^verbatim>\<open>normalize_spacing\<close> of \<^verbatim>\<open>pipeline_no_ffmpeg.py\<close> return what the functions of the same
  names in \<^verbatim>\<open>pipeline.py\<close> return, on every input.\<close>

theorem copies_agree:
  "words_to_sentences_nf fp ws g m = words_to_sentences fp ws g m \<and>
   should_close_sentence_nf fp t w nw g = should_close_sentence fp t w nw g \<and>
   normalize_spacing_nf s = normalize_spacing s"
proof -
  obtain st where run: "segment_run fp ws g m = Inr st" and st: "steps st = trace_of fp g m [] ws"
    and ac: "accum st = open_acc [] (trace_of fp g m [] ws)"
    and se: "sentences st = map sentence_of_group (filter group_emits (groups_of st))"
    using segment_run_trace by blast
  have "words_to_sentences_nf fp ws g m = Inr (sentences st)"
  proof (cases "ws = []")
    case True
    with run show ?thesis
      by (auto simp: words_to_sentences_nf_def segment_run_def)
  next
    case False
    show ?thesis
    proof (cases "open_acc [] (trace_of fp g m [] ws) = []")
      case True
      with False show ?thesis
        by (simp add: words_to_sentences_nf_def seg_loop_nf_trace se groups_of_def st ac)
    next
      case ne: False
      with False show ?thesis
        by (simp add: words_to_sentences_nf_def seg_loop_nf_trace se groups_of_def st ac
            nf_constants emit_sentence_nonempty)
    qed
  qed
  with run show ?thesis
    by (simp add: words_to_sentences_def nf_constants)
qed

text \<open>An instance: the words "Hi" and ".".\<close>

theorem copies_agree_witness:
  "words_to_sentences_nf exact_ops [\<lparr>w_text = [72, 105], w_start = 0, w_end = 1 / 2\<rparr>,
      \<lparr>w_text = [46], w_start = 1 / 2, w_end = 1\<rparr>] 5 80 = words_to_sentences exact_ops [\<lparr>w_text = [72, 105], w_start = 0, w_end = 1 / 2\<rparr>,
      \<lparr>w_text = [46], w_start = 1 / 2, w_end = 1\<rparr>] 5 80 \<and>
   words_to_sentences exact_ops [\<lparr>w_text = [72, 105], w_start = 0, w_end = 1 / 2\<rparr>,
      \<lparr>w_text = [46], w_start = 1 / 2, w_end = 1\<rparr>] 5 80 = Inr [\<lparr>s_text = [72, 105, 46], start_time = 0, end_time = 1\<rparr>]"
proof -
  have "words_to_sentences exact_ops [\<lparr>w_text = [72, 105], w_start = 0, w_end = 1 / 2\<rparr>,
      \<lparr>w_text = [46], w_start = 1 / 2, w_end = 1\<rparr>] 5 80 = Inr [\<lparr>s_text = [72, 105, 46], start_time = 0, end_time = 1\<rparr>]"
    by (simp add: segment_eval)
  with copies_agree[of exact_ops "[\<lparr>w_text = [72, 105], w_start = 0, w_end = 1 / 2\<rparr>,
      \<lparr>w_text = [46], w_start = 1 / 2, w_end = 1\<rparr>]" 5 80] show ?thesis
    by blast
qed

end
